theory Spec2Isabelle
  imports Complex_Main "HOL-Library.Stream" "HOL-Library.Sublist"
begin

section \<open>Python values and library operations used by the generator scripts\<close>

text \<open>
  The scripts are flat loops over the Python standard library. The library calls they make
  are modelled here once: exceptions as values, decimal rendering of integers and floats,
  \<open>str.title\<close>, \<open>str.join\<close>, the \<open>random\<close> module as an oracle that consumes one raw
  draw per call, the clock as an oracle, the serialiser of the \<open>json\<close> module, and the
  part of the filesystem the scripts touch. Python floats are modelled by real numbers.
\<close>

datatype exn =
  ValueError | FileNotFoundError | KeyError | TypeError | AttributeError | SystemExit int

subsection \<open>Rendering integers\<close>

definition digit_char :: "nat \<Rightarrow> char" where
  "digit_char d = ''0123456789'' ! (d mod 10)"

definition is_digit :: "char \<Rightarrow> bool" where
  "is_digit c = (c \<in> set ''0123456789'')"

fun dec_digits :: "nat \<Rightarrow> string" where
  "dec_digits n =
     (if n < 10 then [digit_char n] else dec_digits (n div 10) @ [digit_char (n mod 10)])"

declare dec_digits.simps [simp del]

text \<open>The number a string of decimal digits denotes.\<close>

definition digit_value :: "char \<Rightarrow> nat" where
  "digit_value c = (case map_of (zip ''0123456789'' [0..<10]) c of Some d \<Rightarrow> d | None \<Rightarrow> 0)"

definition digits_value :: "string \<Rightarrow> nat" where
  "digits_value ds = foldl (\<lambda>n c. 10 * n + digit_value c) 0 ds"

text \<open>\<open>str(i)\<close> and \<open>f"{i}"\<close> for an integer.\<close>

definition str_int :: "int \<Rightarrow> string" where
  "str_int i = (if i < 0 then ''-'' else '''') @ dec_digits (nat \<bar>i\<bar>)"

text \<open>The format specification \<open>0wd\<close>: sign first, then zeros up to width \<open>w\<close>.\<close>

definition format_0d :: "nat \<Rightarrow> int \<Rightarrow> string" where
  "format_0d w i =
     (let sign = (if i < 0 then ''-'' else ''''); ds = dec_digits (nat \<bar>i\<bar>)
      in sign @ replicate (w - length sign - length ds) (CHR ''0'') @ ds)"

subsection \<open>Rendering floats with three decimals\<close>

text \<open>
  \<open>f"{x:.3f}"\<close> prints the decimal with three fractional digits nearest to the value of
  \<open>x\<close>, ties going to the even neighbour.
\<close>

definition round_half_even :: "real \<Rightarrow> int" where
  "round_half_even y =
     (let f = \<lfloor>y\<rfloor>; d = y - of_int f
      in if d < 1 / 2 then f else if 1 / 2 < d then f + 1 else if even f then f else f + 1)"

definition format_3f :: "real \<Rightarrow> string" where
  "format_3f x =
     (let q = nat (round_half_even (\<bar>x\<bar> * 1000))
      in (if x < 0 then ''-'' else '''') @ dec_digits (q div 1000) @ ''.''
         @ format_0d 3 (int (q mod 1000)))"

subsection \<open>\<open>str.title\<close> and \<open>str.join\<close>\<close>

definition is_lower :: "char \<Rightarrow> bool" where
  "is_lower c = (c \<in> set ''abcdefghijklmnopqrstuvwxyz'')"

definition is_upper :: "char \<Rightarrow> bool" where
  "is_upper c = (c \<in> set ''ABCDEFGHIJKLMNOPQRSTUVWXYZ'')"

definition to_upper :: "char \<Rightarrow> char" where
  "to_upper c =
     (case map_of (zip ''abcdefghijklmnopqrstuvwxyz'' ''ABCDEFGHIJKLMNOPQRSTUVWXYZ'') c of
        Some u \<Rightarrow> u | None \<Rightarrow> c)"

definition to_lower :: "char \<Rightarrow> char" where
  "to_lower c =
     (case map_of (zip ''ABCDEFGHIJKLMNOPQRSTUVWXYZ'' ''abcdefghijklmnopqrstuvwxyz'') c of
        Some l \<Rightarrow> l | None \<Rightarrow> c)"

text \<open>
  \<open>s.title()\<close> on ASCII text: a letter that follows a letter is lowered, a letter that
  follows anything else (or starts the string) is raised. The flag says whether the
  previous character was a letter.
\<close>

fun title_from :: "bool \<Rightarrow> string \<Rightarrow> string" where
  "title_from prev [] = []"
| "title_from prev (c # cs) =
     (if is_lower c \<or> is_upper c
      then (if prev then to_lower c else to_upper c) # title_from True cs
      else c # title_from False cs)"

definition title :: "string \<Rightarrow> string" where
  "title s = title_from False s"

fun py_join :: "string \<Rightarrow> string list \<Rightarrow> string" where
  "py_join sep [] = []"
| "py_join sep [x] = x"
| "py_join sep (x # y # ys) = x @ sep @ py_join sep (y # ys)"

abbreviation newline :: char where
  "newline \<equiv> CHR 0x0A"

text \<open>
  The lines of a text file as iteration over the file yields them, without their
  terminators: a final newline ends the last line and starts no new one.
\<close>

fun file_lines :: "string \<Rightarrow> string list" where
  "file_lines [] = []"
| "file_lines (c # cs) =
     (if c = newline then [] # file_lines cs
      else (case file_lines cs of [] \<Rightarrow> [[c]] | l # ls \<Rightarrow> (c # l) # ls))"

text \<open>\<open>range(n)\<close>: empty when \<open>n\<close> is not positive.\<close>

definition py_range :: "int \<Rightarrow> int list" where
  "py_range n = map int [0..<nat n]"

subsection \<open>The \<open>random\<close> module\<close>

text \<open>
  The generator state is the stream of its future raw draws. Each call of the module
  consumes one draw (\<open>random.choices\<close> with \<open>k\<close> results consumes \<open>k\<close>) and maps it
  into the documented range of the call: \<open>random()\<close> into the multiples of \<open>2\<^sup>-\<^sup>5\<^sup>3\<close> in
  \<open>[0, 1)\<close>, \<open>randint(a, b)\<close> into \<open>a..b\<close>, \<open>choice\<close> into the given sequence.
\<close>

type_synonym rng = "nat stream"

definition random_random :: "rng \<Rightarrow> real \<times> rng" where
  "random_random r = (real (shd r mod 2 ^ 53) / 2 ^ 53, stl r)"

definition random_uniform :: "real \<Rightarrow> real \<Rightarrow> rng \<Rightarrow> real \<times> rng" where
  "random_uniform a b r = (let (u, r') = random_random r in (a + (b - a) * u, r'))"

definition random_randint :: "int \<Rightarrow> int \<Rightarrow> rng \<Rightarrow> int \<times> rng" where
  "random_randint a b r = (a + int (shd r mod nat (b - a + 1)), stl r)"

definition random_choice :: "'a list \<Rightarrow> rng \<Rightarrow> 'a \<times> rng" where
  "random_choice xs r = (xs ! (shd r mod length xs), stl r)"

definition random_choices :: "'a list \<Rightarrow> nat \<Rightarrow> rng \<Rightarrow> 'a list \<times> rng" where
  "random_choices pop k r = (map (\<lambda>n. pop ! (n mod length pop)) (stake k r), sdrop k r)"

subsection \<open>JSON values and \<open>json.dumps\<close>\<close>

text \<open>
  The values the \<open>json\<close> module reads and writes. An object is the list of its members
  in order; a key that is repeated in a JSON text takes its last value, as in a \<open>dict\<close>.
\<close>

datatype json =
  JNull
| JBool bool
| JStr string
| JInt int
| JFloat real
| JArr "json list"
| JObj "(string \<times> json) list"

definition hex_char :: "nat \<Rightarrow> char" where
  "hex_char d = ''0123456789abcdef'' ! (d mod 16)"

text \<open>
  One character of a string literal, as \<open>json.dumps\<close> writes it with its default
  \<open>ensure_ascii\<close>: the quote and the backslash are escaped, the control characters with
  a short escape use it, and every other character outside \<open>' '..'~'\<close> becomes
  \<open>\u00XX\<close>.
\<close>

definition escape_char :: "char \<Rightarrow> string" where
  "escape_char c =
     (if c = CHR 0x22 then [CHR 0x5C, CHR 0x22]
      else if c = CHR 0x5C then [CHR 0x5C, CHR 0x5C]
      else if c = CHR 0x0A then [CHR 0x5C, CHR ''n'']
      else if c = CHR 0x0D then [CHR 0x5C, CHR ''r'']
      else if c = CHR 0x09 then [CHR 0x5C, CHR ''t'']
      else if c = CHR 0x08 then [CHR 0x5C, CHR ''b'']
      else if c = CHR 0x0C then [CHR 0x5C, CHR ''f'']
      else if (of_char c :: nat) < 32 \<or> 126 < (of_char c :: nat)
      then [CHR 0x5C, CHR ''u'', CHR ''0'', CHR ''0'',
            hex_char (of_char c div 16), hex_char (of_char c mod 16)]
      else [c])"

definition json_string :: "string \<Rightarrow> string" where
  "json_string s = [CHR 0x22] @ concat (map escape_char s) @ [CHR 0x22]"

text \<open>
  \<open>json.dumps(v, indent=ind)\<close> at nesting depth \<open>lvl\<close>. Without an indent the items
  of a container are separated by \<open>", "\<close> on one line; with an indent of \<open>k\<close> every item
  starts a new line, indented by \<open>k\<close> spaces per level, and the item separator is
  \<open>","\<close>. A float is written by \<open>float.__repr__\<close>, which is library code: it is the
  parameter \<open>float_repr\<close>.
\<close>

definition json_layout :: "nat option \<Rightarrow> nat \<Rightarrow> string \<Rightarrow> string \<Rightarrow> string list \<Rightarrow> string" where
  "json_layout ind lvl opening closing items =
     (if items = [] then opening @ closing
      else (case ind of
              None \<Rightarrow> opening @ py_join '', '' items @ closing
            | Some k \<Rightarrow>
                opening @ newline # replicate (k * (lvl + 1)) (CHR '' '')
                @ py_join ('','' @ newline # replicate (k * (lvl + 1)) (CHR '' '')) items
                @ newline # replicate (k * lvl) (CHR '' '') @ closing))"

fun json_encode :: "(real \<Rightarrow> string) \<Rightarrow> nat option \<Rightarrow> nat \<Rightarrow> json \<Rightarrow> string"
  and json_encode_items :: "(real \<Rightarrow> string) \<Rightarrow> nat option \<Rightarrow> nat \<Rightarrow> json list \<Rightarrow> string list"
  and json_encode_members ::
    "(real \<Rightarrow> string) \<Rightarrow> nat option \<Rightarrow> nat \<Rightarrow> (string \<times> json) list \<Rightarrow> string list"
where
  "json_encode fr ind lvl JNull = ''null''"
| "json_encode fr ind lvl (JBool b) = (if b then ''true'' else ''false'')"
| "json_encode fr ind lvl (JStr s) = json_string s"
| "json_encode fr ind lvl (JInt i) = str_int i"
| "json_encode fr ind lvl (JFloat x) = fr x"
| "json_encode fr ind lvl (JArr vs) =
     json_layout ind lvl ''['' '']'' (json_encode_items fr ind (lvl + 1) vs)"
| "json_encode fr ind lvl (JObj kvs) =
     json_layout ind lvl ''{'' ''}'' (json_encode_members fr ind (lvl + 1) kvs)"
| "json_encode_items fr ind lvl [] = []"
| "json_encode_items fr ind lvl (v # vs) =
     json_encode fr ind lvl v # json_encode_items fr ind lvl vs"
| "json_encode_members fr ind lvl [] = []"
| "json_encode_members fr ind lvl ((k, v) # kvs) =
     (json_string k @ '': '' @ json_encode fr ind lvl v) # json_encode_members fr ind lvl kvs"

definition json_dumps :: "(real \<Rightarrow> string) \<Rightarrow> json \<Rightarrow> string" where
  "json_dumps fr v = json_encode fr None 0 v"

definition json_dumps_indent :: "(real \<Rightarrow> string) \<Rightarrow> nat \<Rightarrow> json \<Rightarrow> string" where
  "json_dumps_indent fr k v = json_encode fr (Some k) 0 v"

text \<open>The values without a float: strings, integers and containers of them.\<close>

fun float_free :: "json \<Rightarrow> bool"
  and float_free_items :: "json list \<Rightarrow> bool"
  and float_free_members :: "(string \<times> json) list \<Rightarrow> bool"
where
  "float_free JNull = True"
| "float_free (JBool b) = True"
| "float_free (JStr s) = True"
| "float_free (JInt i) = True"
| "float_free (JFloat x) = False"
| "float_free (JArr vs) = float_free_items vs"
| "float_free (JObj kvs) = float_free_members kvs"
| "float_free_items [] = True"
| "float_free_items (v # vs) = (float_free v \<and> float_free_items vs)"
| "float_free_members [] = True"
| "float_free_members ((k, v) # kvs) = (float_free v \<and> float_free_members kvs)"

text \<open>Reading a member of an object and an element of an array, as \<open>v[k]\<close> does.\<close>

fun json_member :: "string \<Rightarrow> json \<Rightarrow> json option" where
  "json_member k (JObj kvs) = map_of (rev kvs) k"
| "json_member k _ = None"

fun json_index :: "nat \<Rightarrow> json \<Rightarrow> json option" where
  "json_index i (JArr vs) = (if i < length vs then Some (vs ! i) else None)"
| "json_index i _ = None"

subsection \<open>\<open>json.loads\<close>\<close>

text \<open>
  A recursive-descent reader of JSON text. Whitespace is skipped before every token. A
  number without fraction and exponent is an integer; one with either is a float, read at
  its decimal value. In a string, \<open>\\uXXXX\<close> is read when it names a character up to
  \<open>U+00FF\<close>, the range of the strings here. Every call spends one unit of fuel, and a call
  consumes at least one character, so the length of the text is fuel enough.
\<close>

definition is_ws :: "char \<Rightarrow> bool" where
  "is_ws c \<longleftrightarrow> c = CHR '' '' \<or> c = CHR 0x09 \<or> c = CHR 0x0A \<or> c = CHR 0x0D"

definition skip_ws :: "string \<Rightarrow> string" where
  "skip_ws s = dropWhile is_ws s"

definition hex_value :: "char \<Rightarrow> nat option" where
  "hex_value c =
     (case map_of (zip ''0123456789abcdef'' [0..<16]) c of
        Some d \<Rightarrow> Some d
      | None \<Rightarrow> map_of (zip ''ABCDEF'' [10..<16]) c)"

definition unescape :: "char \<Rightarrow> char option" where
  "unescape e =
     (if e = CHR 0x22 then Some (CHR 0x22)
      else if e = CHR 0x5C then Some (CHR 0x5C)
      else if e = CHR ''/'' then Some (CHR ''/'')
      else if e = CHR ''b'' then Some (CHR 0x08)
      else if e = CHR ''f'' then Some (CHR 0x0C)
      else if e = CHR ''n'' then Some (CHR 0x0A)
      else if e = CHR ''r'' then Some (CHR 0x0D)
      else if e = CHR ''t'' then Some (CHR 0x09)
      else None)"

text \<open>The characters of a string literal after its opening quote, and the text after it.\<close>

fun parse_string :: "string \<Rightarrow> (string \<times> string) option" where
  "parse_string [] = None"
| "parse_string (c # cs) =
     (if c = CHR 0x22 then Some ([], cs)
      else if c = CHR 0x5C then
        (case cs of
           [] \<Rightarrow> None
         | e # cs1 \<Rightarrow>
             if e = CHR ''u'' then
               (case cs1 of
                  h1 # h2 # h3 # h4 # cs2 \<Rightarrow>
                    (case (hex_value h1, hex_value h2, hex_value h3, hex_value h4) of
                       (Some a, Some b, Some x, Some y) \<Rightarrow>
                         if a = 0 \<and> b = 0
                         then map_option (apfst ((#) (char_of (16 * x + y)))) (parse_string cs2)
                         else None
                     | _ \<Rightarrow> None)
                | _ \<Rightarrow> None)
             else (case unescape e of
                     None \<Rightarrow> None
                   | Some ch \<Rightarrow> map_option (apfst ((#) ch)) (parse_string cs1)))
      else if (of_char c :: nat) < 32 then None
      else map_option (apfst ((#) c)) (parse_string cs))"

definition parse_number :: "string \<Rightarrow> (json \<times> string) option" where
  "parse_number s =
     (let neg = (s \<noteq> [] \<and> hd s = CHR ''-'');
          s1 = (if neg then tl s else s);
          ds = takeWhile is_digit s1;
          s2 = dropWhile is_digit s1;
          has_frac = (s2 \<noteq> [] \<and> hd s2 = CHR ''.'');
          fs = (if has_frac then takeWhile is_digit (tl s2) else []);
          s3 = (if has_frac then dropWhile is_digit (tl s2) else s2);
          has_exp = (s3 \<noteq> [] \<and> (hd s3 = CHR ''e'' \<or> hd s3 = CHR ''E''));
          s4 = (if has_exp then tl s3 else s3);
          exp_neg = (has_exp \<and> s4 \<noteq> [] \<and> hd s4 = CHR ''-'');
          s5 = (if has_exp \<and> s4 \<noteq> [] \<and> (hd s4 = CHR ''-'' \<or> hd s4 = CHR ''+'')
                then tl s4 else s4);
          es = (if has_exp then takeWhile is_digit s5 else []);
          s6 = (if has_exp then dropWhile is_digit s5 else s3)
      in if ds = [] \<or> (1 < length ds \<and> hd ds = CHR ''0'') \<or> (has_frac \<and> fs = [])
            \<or> (has_exp \<and> es = [])
         then None
         else if has_frac \<or> has_exp
         then Some (JFloat ((if neg then - 1 else 1)
                            * (real (digits_value ds) + real (digits_value fs) / 10 ^ length fs)
                            * (if exp_neg then 1 / 10 ^ digits_value es
                               else 10 ^ digits_value es)),
                    s6)
         else Some (JInt ((if neg then - 1 else 1) * int (digits_value ds)), s6))"

fun parse_value :: "nat \<Rightarrow> string \<Rightarrow> (json \<times> string) option"
  and parse_elements :: "nat \<Rightarrow> string \<Rightarrow> (json list \<times> string) option"
  and parse_members :: "nat \<Rightarrow> string \<Rightarrow> ((string \<times> json) list \<times> string) option"
where
  "parse_value 0 s = None"
| "parse_value (Suc n) s =
     (case skip_ws s of
        [] \<Rightarrow> None
      | c # cs \<Rightarrow>
          if c = CHR 0x22 then map_option (apfst JStr) (parse_string cs)
          else if c = CHR ''['' then
            (case skip_ws cs of
               [] \<Rightarrow> None
             | c1 # cs1 \<Rightarrow>
                 if c1 = CHR '']'' then Some (JArr [], cs1)
                 else map_option (apfst JArr) (parse_elements n cs))
          else if c = CHR ''{'' then
            (case skip_ws cs of
               [] \<Rightarrow> None
             | c1 # cs1 \<Rightarrow>
                 if c1 = CHR ''}'' then Some (JObj [], cs1)
                 else map_option (apfst JObj) (parse_members n cs))
          else if prefix ''true'' (c # cs) then Some (JBool True, drop 4 (c # cs))
          else if prefix ''false'' (c # cs) then Some (JBool False, drop 5 (c # cs))
          else if prefix ''null'' (c # cs) then Some (JNull, drop 4 (c # cs))
          else parse_number (c # cs))"
| "parse_elements 0 s = None"
| "parse_elements (Suc n) s =
     (case parse_value n s of
        None \<Rightarrow> None
      | Some (v, rest) \<Rightarrow>
          (case skip_ws rest of
             [] \<Rightarrow> None
           | c # cs \<Rightarrow>
               if c = CHR '','' then map_option (apfst ((#) v)) (parse_elements n cs)
               else if c = CHR '']'' then Some ([v], cs)
               else None))"
| "parse_members 0 s = None"
| "parse_members (Suc n) s =
     (case skip_ws s of
        [] \<Rightarrow> None
      | q # cs \<Rightarrow>
          if q \<noteq> CHR 0x22 then None
          else (case parse_string cs of
                  None \<Rightarrow> None
                | Some (k, rest) \<Rightarrow>
                    (case skip_ws rest of
                       [] \<Rightarrow> None
                     | c # cs1 \<Rightarrow>
                         if c \<noteq> CHR '':'' then None
                         else (case parse_value n cs1 of
                                 None \<Rightarrow> None
                               | Some (v, rest1) \<Rightarrow>
                                   (case skip_ws rest1 of
                                      [] \<Rightarrow> None
                                    | c2 # cs2 \<Rightarrow>
                                        if c2 = CHR '','' then
                                          map_option (apfst ((#) (k, v))) (parse_members n cs2)
                                        else if c2 = CHR ''}'' then Some ([(k, v)], cs2)
                                        else None)))))"

text \<open>\<open>json.loads(s)\<close>: one value, with nothing but whitespace after it.\<close>

definition json_loads :: "string \<Rightarrow> json option" where
  "json_loads s =
     (case parse_value (Suc (length s)) s of
        None \<Rightarrow> None
      | Some (v, rest) \<Rightarrow> if skip_ws rest = [] then Some v else None)"

subsection \<open>The world: random source, clock and filesystem\<close>

text \<open>
  \<open>dirs\<close> holds the spellings of the directories that exist, \<open>files\<close> the contents of the
  files by path. \<open>clock\<close> holds the future readings of \<open>time.time()\<close>, \<open>stamps\<close> the future
  results of \<open>time.strftime\<close>.
\<close>

record world =
  rand :: rng
  clock :: "real stream"
  stamps :: "string stream"
  dirs :: "string set"
  files :: "string \<rightharpoonup> string"

text \<open>\<open>os.path.join(a, b)\<close> and \<open>os.path.dirname(p)\<close> of \<open>posixpath\<close>.\<close>

definition os_path_join :: "string \<Rightarrow> string \<Rightarrow> string" where
  "os_path_join a b =
     (if b \<noteq> [] \<and> hd b = CHR ''/'' then b
      else if a = [] \<or> last a = CHR ''/'' then a @ b
      else a @ ''/'' @ b)"

definition os_path_dirname :: "string \<Rightarrow> string" where
  "os_path_dirname p =
     (let hd_part = rev (dropWhile (\<lambda>c. c \<noteq> CHR ''/'') (rev p))
      in if hd_part \<noteq> [] \<and> hd_part \<noteq> replicate (length hd_part) (CHR ''/'')
         then rev (dropWhile (\<lambda>c. c = CHR ''/'') (rev hd_part))
         else hd_part)"

text \<open>
  \<open>with open(path, "w") as f: f.write(text)\<close>: the file is created or truncated in its
  directory; when the directory does not exist the \<open>open\<close> raises and nothing is written.
  A path without a directory part is relative to the current directory \<open>"."\<close>.
\<close>

definition path_parent :: "string \<Rightarrow> string" where
  "path_parent p = (if os_path_dirname p = [] then ''.'' else os_path_dirname p)"

definition write_file :: "string \<Rightarrow> string \<Rightarrow> world \<Rightarrow> exn + world" where
  "write_file path text w =
     (if path_parent path \<in> dirs w
      then Inr (w\<lparr>files := (files w)(path \<mapsto> text)\<rparr>)
      else Inl FileNotFoundError)"

text \<open>
  \<open>os.makedirs(p, exist_ok=True)\<close>: the directory and its missing ancestors exist
  afterwards.
\<close>

fun path_ancestors :: "string \<Rightarrow> string \<Rightarrow> string list" where
  "path_ancestors acc [] = []"
| "path_ancestors acc (c # cs) =
     (if c = CHR ''/'' \<and> acc \<noteq> [] then [acc] else []) @ path_ancestors (acc @ [c]) cs"

definition os_makedirs :: "string \<Rightarrow> world \<Rightarrow> world" where
  "os_makedirs p w = w\<lparr>dirs := dirs w \<union> set (path_ancestors [] p) \<union> {p}\<rparr>"

text \<open>\<open>int(x)\<close> of a float truncates towards zero.\<close>

definition int_of_float :: "real \<Rightarrow> int" where
  "int_of_float x = (if 0 \<le> x then \<lfloor>x\<rfloor> else \<lceil>x\<rceil>)"

section \<open>\<open>generate_trace_files.py\<close>\<close>

definition generate_trace_id :: "rng \<Rightarrow> string \<times> rng" where
  "generate_trace_id r = random_choices ''0123456789abcdef'' 32 r"

definition generate_span_id :: "rng \<Rightarrow> string \<times> rng" where
  "generate_span_id r = random_choices ''0123456789abcdef'' 16 r"

definition generate_span :: "string \<Rightarrow> string \<Rightarrow> int \<Rightarrow> int \<Rightarrow> rng \<Rightarrow> json \<times> rng" where
  "generate_span trace_id parent_span_id span_num start_time_ns r =
     (let (span_id, r1) = generate_span_id r;
          (duration_ns, r2) = random_randint 1000000 100000000 r1;
          (kind, r3) = random_randint 1 5 r2;
          (operation, r4) = random_choice [''find'', ''insert'', ''update'', ''delete''] r3
      in (JObj
           [(''traceId'', JStr trace_id),
            (''spanId'', JStr span_id),
            (''parentSpanId'', JStr parent_span_id),
            (''name'', JStr (''operation_'' @ format_0d 4 span_num)),
            (''kind'', JInt kind),
            (''startTimeUnixNano'', JStr (str_int start_time_ns)),
            (''endTimeUnixNano'', JStr (str_int (start_time_ns + duration_ns))),
            (''attributes'', JArr
              [JObj [(''key'', JStr ''db.system''),
                     (''value'', JObj [(''stringValue'', JStr ''mongodb'')])],
               JObj [(''key'', JStr ''db.operation''),
                     (''value'', JObj [(''stringValue'', JStr operation)])],
               JObj [(''key'', JStr ''db.name''),
                     (''value'', JObj [(''stringValue'', JStr ''test_db'')])],
               JObj [(''key'', JStr ''span.num''),
                     (''value'', JObj [(''intValue'', JStr (str_int span_num))])]]),
            (''status'', JObj [])],
          r4))"

text \<open>
  The loop of \<open>generate_trace_data\<close> over \<open>range(num_spans)\<close>: the state is the list of
  spans so far, the parent id for the next span and the random source. The second
  \<open>random.random()\<close> is drawn only when the first comparison fails.
\<close>

fun trace_spans_loop ::
  "string \<Rightarrow> int \<Rightarrow> int list \<Rightarrow> json list \<Rightarrow> string \<Rightarrow> rng \<Rightarrow> json list \<times> rng" where
  "trace_spans_loop trace_id base_time_ns [] spans parent_span_id r = (spans, r)"
| "trace_spans_loop trace_id base_time_ns (i # is) spans parent_span_id r =
     (let (span, r1) = generate_span trace_id parent_span_id i (base_time_ns + i * 1000000) r;
          (u, r2) = random_random r1
      in if u < 0.3
         then trace_spans_loop trace_id base_time_ns is (spans @ [span])
                (case json_member ''spanId'' span of Some (JStr s) \<Rightarrow> s | _ \<Rightarrow> parent_span_id) r2
         else (let (u', r3) = random_random r2
               in if u' < 0.5
                  then trace_spans_loop trace_id base_time_ns is (spans @ [span]) '''' r3
                  else trace_spans_loop trace_id base_time_ns is (spans @ [span])
                         parent_span_id r3))"

definition generate_trace_data :: "int \<Rightarrow> world \<Rightarrow> json \<times> world" where
  "generate_trace_data num_spans w =
     (let (trace_id, r1) = generate_trace_id (rand w);
          base_time_ns = int_of_float (shd (clock w) * 10 ^ 9);
          (spans, r2) = trace_spans_loop trace_id base_time_ns (py_range num_spans) [] '''' r1
      in (JObj
           [(''resourceSpans'', JArr
              [JObj
                [(''resource'', JObj
                   [(''attributes'', JArr
                      [JObj [(''key'', JStr ''service.name''),
                             (''value'', JObj [(''stringValue'', JStr ''test-service'')])],
                       JObj [(''key'', JStr ''service.version''),
                             (''value'', JObj [(''stringValue'', JStr ''1.0.0'')])],
                       JObj [(''key'', JStr ''host.name''),
                             (''value'', JObj [(''stringValue'', JStr ''test-host'')])]])]),
                 (''scopeSpans'', JArr
                   [JObj
                     [(''scope'', JObj [(''name'', JStr ''test-tracer'')]),
                      (''spans'', JArr spans)]])]])],
          w\<lparr>rand := r2, clock := stl (clock w)\<rparr>))"

text \<open>
  The loop of \<open>generate_trace_file\<close>: one serialised trace object per round, each with
  \<open>spans_per_object\<close> spans.
\<close>

fun trace_lines_loop ::
  "(real \<Rightarrow> string) \<Rightarrow> int \<Rightarrow> nat \<Rightarrow> string list \<Rightarrow> int \<Rightarrow> world \<Rightarrow> string list \<times> int \<times> world"
where
  "trace_lines_loop fr spans_per_object 0 lines actual_spans w = (lines, actual_spans, w)"
| "trace_lines_loop fr spans_per_object (Suc n) lines actual_spans w =
     (let (trace_data, w1) = generate_trace_data spans_per_object w
      in trace_lines_loop fr spans_per_object n (lines @ [json_dumps fr trace_data])
           (actual_spans + spans_per_object) w1)"

definition trace_filename :: "int \<Rightarrow> string" where
  "trace_filename file_num = ''traces_'' @ format_0d 4 file_num @ ''.jsonl''"

text \<open>\<open>v["resourceSpans"][0]["scopeSpans"][0]["spans"]\<close> of a trace object.\<close>

definition trace_spans :: "json \<Rightarrow> json option" where
  "trace_spans v =
     Option.bind (Option.bind (Option.bind (Option.bind (json_member ''resourceSpans'' v)
       (json_index 0)) (json_member ''scopeSpans'')) (json_index 0)) (json_member ''spans'')"

text \<open>
  A span object, as \<open>generate_span\<close> builds it: a 32-digit hexadecimal trace id, a
  16-digit hexadecimal span id, a parent span id, an operation name, a kind from 1 to 5,
  start and end times, a list of attributes and a status object.
\<close>

definition str_member :: "string \<Rightarrow> json \<Rightarrow> string option" where
  "str_member k v = (case json_member k v of Some (JStr s) \<Rightarrow> Some s | _ \<Rightarrow> None)"

definition int_member :: "string \<Rightarrow> json \<Rightarrow> int option" where
  "int_member k v = (case json_member k v of Some (JInt i) \<Rightarrow> Some i | _ \<Rightarrow> None)"

definition is_hex_id :: "nat \<Rightarrow> string option \<Rightarrow> bool" where
  "is_hex_id n s =
     (case s of
        None \<Rightarrow> False
      | Some x \<Rightarrow> length x = n \<and> list_all (\<lambda>c. c \<in> set ''0123456789abcdef'') x)"

definition is_span :: "json \<Rightarrow> bool" where
  "is_span s \<longleftrightarrow>
     is_hex_id 32 (str_member ''traceId'' s)
     \<and> is_hex_id 16 (str_member ''spanId'' s)
     \<and> str_member ''parentSpanId'' s \<noteq> None
     \<and> (case str_member ''name'' s of None \<Rightarrow> False | Some n \<Rightarrow> prefix ''operation_'' n)
     \<and> (case int_member ''kind'' s of None \<Rightarrow> False | Some k \<Rightarrow> 1 \<le> k \<and> k \<le> 5)
     \<and> str_member ''startTimeUnixNano'' s \<noteq> None
     \<and> str_member ''endTimeUnixNano'' s \<noteq> None
     \<and> (case json_member ''attributes'' s of Some (JArr a) \<Rightarrow> True | _ \<Rightarrow> False)
     \<and> (case json_member ''status'' s of Some (JObj m) \<Rightarrow> True | _ \<Rightarrow> False)"

text \<open>The number of span objects in a trace object.\<close>

definition span_count :: "json \<Rightarrow> nat" where
  "span_count v =
     (case trace_spans v of Some (JArr ss) \<Rightarrow> length (filter is_span ss) | _ \<Rightarrow> 0)"

text \<open>
  A line of a trace file holds a trace object of \<open>n\<close> spans when it reads back, by
  \<open>json.loads\<close>, as a value whose \<open>resourceSpans[0].scopeSpans[0].spans\<close> is a list of \<open>n\<close>
  span objects.
\<close>

definition trace_object :: "nat \<Rightarrow> json \<Rightarrow> bool" where
  "trace_object n v \<longleftrightarrow>
     (case trace_spans v of
        Some (JArr ss) \<Rightarrow> length ss = n \<and> list_all is_span ss
      | _ \<Rightarrow> False)"

definition trace_line :: "nat \<Rightarrow> string \<Rightarrow> bool" where
  "trace_line n l \<longleftrightarrow> (case json_loads l of None \<Rightarrow> False | Some v \<Rightarrow> trace_object n v)"

text \<open>The number of span objects in the lines of a trace file that read back as JSON.\<close>

definition file_span_count :: "string \<Rightarrow> nat" where
  "file_span_count body =
     sum_list (map (\<lambda>l. case json_loads l of None \<Rightarrow> 0 | Some v \<Rightarrow> span_count v)
                 (file_lines body))"

definition generate_trace_file ::
  "(real \<Rightarrow> string) \<Rightarrow> int \<Rightarrow> int \<Rightarrow> string \<Rightarrow> world \<Rightarrow> exn + (int \<times> world)" where
  "generate_trace_file fr file_num spans_per_file output_dir w =
     (let spans_per_object = 275;
          num_trace_objects = max 1 (spans_per_file div spans_per_object);
          (lines, actual_spans, w1) =
             trace_lines_loop fr spans_per_object (nat num_trace_objects) [] 0 w;
          filename = os_path_join output_dir (trace_filename file_num)
      in case write_file filename (py_join [newline] lines @ [newline]) w1 of
           Inl e \<Rightarrow> Inl e
         | Inr w2 \<Rightarrow> Inr (actual_spans, w2))"

section \<open>\<open>generate_gotest_files.py\<close>\<close>

text \<open>
  The lines of one test, before \<open>generate_test_output\<close> joins them: the \<open>RUN\<close> line,
  between two and eight log lines, the three lines of a failed assertion when the test is
  to fail, and the result line.
\<close>

definition log_line :: "string \<Rightarrow> int \<Rightarrow> string" where
  "log_line test_name i =
     ''    '' @ test_name @ '': log line '' @ str_int (i + 1) @ '': processing step ''
     @ str_int (i + 1)"

definition test_output_lines :: "int \<Rightarrow> string \<Rightarrow> bool \<Rightarrow> rng \<Rightarrow> (string list \<times> string) \<times> rng" where
  "test_output_lines test_num module_name should_fail r =
     (let test_name = ''Test'' @ title module_name @ ''_Case'' @ format_0d 4 test_num;
          (duration, r1) = random_uniform 0.001 0.5 r;
          (num_logs, r2) = random_randint 2 8 r1;
          lines = [''=== RUN   '' @ test_name] @ map (log_line test_name) (py_range num_logs)
      in if should_fail
         then (let (expected, r3) = random_randint 1 100 r2;
                   (actual, r4) = random_randint 1 100 r3
               in ((lines @ [''    '' @ test_name @ '': assertion failed'',
                             ''        Expected: '' @ str_int expected,
                             ''        Actual: '' @ str_int actual,
                             ''--- '' @ ''FAIL'' @ '': '' @ test_name @ '' ('' @ format_3f duration
                             @ ''s)''],
                    ''FAIL''), r4))
         else ((lines @ [''--- '' @ ''PASS'' @ '': '' @ test_name @ '' ('' @ format_3f duration
                         @ ''s)''],
                ''PASS''), r2))"

definition generate_test_output :: "int \<Rightarrow> string \<Rightarrow> bool \<Rightarrow> rng \<Rightarrow> (string \<times> string) \<times> rng" where
  "generate_test_output test_num module_name should_fail r =
     (let ((lines, status), r') = test_output_lines test_num module_name should_fail r
      in ((py_join [newline] lines, status), r'))"

text \<open>
  The loop of \<open>generate_suite_file\<close> over \<open>range(tests_per_file)\<close>: the state is the list
  of test outputs, the two counters and the random source.
\<close>

fun suite_loop ::
  "string \<Rightarrow> real \<Rightarrow> int list \<Rightarrow> string list \<Rightarrow> int \<Rightarrow> int \<Rightarrow> rng
   \<Rightarrow> string list \<times> int \<times> int \<times> rng" where
  "suite_loop module_name failure_rate [] lines num_failures num_passes r =
     (lines, num_failures, num_passes, r)"
| "suite_loop module_name failure_rate (test_num # rest) lines num_failures num_passes r =
     (let (u, r1) = random_random r;
          should_fail = (u < failure_rate);
          ((output, status), r2) = generate_test_output test_num module_name should_fail r1
      in if status = ''FAIL''
         then suite_loop module_name failure_rate rest (lines @ [output]) (num_failures + 1)
                num_passes r2
         else suite_loop module_name failure_rate rest (lines @ [output]) num_failures
                (num_passes + 1) r2)"

definition suite_filename :: "int \<Rightarrow> string" where
  "suite_filename file_num = ''module_'' @ format_0d 4 file_num @ ''.suite''"

definition generate_suite_file ::
  "int \<Rightarrow> int \<Rightarrow> real \<Rightarrow> string \<Rightarrow> world \<Rightarrow> exn + ((int \<times> int) \<times> world)" where
  "generate_suite_file file_num tests_per_file failure_rate output_dir w =
     (let module_name = ''module_'' @ format_0d 4 file_num;
          (lines, num_failures, num_passes, r1) =
             suite_loop module_name failure_rate (py_range tests_per_file) [] 0 0 (rand w);
          lines1 = lines @ [if 0 < num_failures then ''FAIL'' else ''PASS''];
          (t, r2) = random_uniform 0.5 5.0 r1;
          lines2 = lines1 @ [''ok  '' @ [CHR 0x09] @ ''github.com/test/'' @ module_name
                             @ [CHR 0x09] @ format_3f t @ ''s''];
          filename = os_path_join output_dir (module_name @ ''.suite'')
      in case write_file filename (py_join [newline] lines2) (w\<lparr>rand := r2\<rparr>) of
           Inl e \<Rightarrow> Inl e
         | Inr w' \<Rightarrow> Inr ((tests_per_file, num_failures), w'))"

text \<open>The result lines of a test transcript, and its summary line (the last but one).\<close>

definition result_line :: "string \<Rightarrow> bool" where
  "result_line l \<longleftrightarrow> prefix ''--- PASS:'' l \<or> prefix ''--- FAIL:'' l"

definition summary_line :: "string list \<Rightarrow> string option" where
  "summary_line ls = (if 2 \<le> length ls then Some (ls ! (length ls - 2)) else None)"

text \<open>The text a call has written at a path, when it has returned.\<close>

definition written :: "exn + ('a \<times> world) \<Rightarrow> string \<Rightarrow> string option" where
  "written res path = (case res of Inl e \<Rightarrow> None | Inr (x, w') \<Rightarrow> files w' path)"

text \<open>The value a call has returned, when it has not raised.\<close>

definition returned :: "exn + ('a \<times> world) \<Rightarrow> 'a option" where
  "returned res = (case res of Inl e \<Rightarrow> None | Inr (x, w') \<Rightarrow> Some x)"

definition world0 :: world where
  "world0 =
     \<lparr>rand = sconst 0, clock = sconst 1700000000, stamps = sconst ''2024-01-01 00:00:00'',
      dirs = {''.''}, files = Map.empty\<rparr>"

text \<open>A world whose random source always draws \<open>2\<^sup>4\<^sup>3\<close>, so that \<open>random()\<close> is \<open>2\<^sup>-\<^sup>1\<^sup>0\<close>.\<close>

definition world1 :: world where
  "world1 = world0\<lparr>rand := sconst (2 ^ 43)\<rparr>"

section \<open>Predicates used in the proofs\<close>

text \<open>The characters of the generated names and numbers.\<close>

definition name_char :: "char \<Rightarrow> bool" where
  "name_char c \<longleftrightarrow> is_lower c \<or> is_upper c \<or> is_digit c \<or> c = CHR ''_'' \<or> c = CHR ''.'' \<or> c = CHR ''-''"

text \<open>
  The lines of one test of a transcript: plain non-empty lines with exactly one result
  line, which reports a failure exactly when the status is \<open>FAIL\<close>.
\<close>

definition test_block :: "string \<Rightarrow> string list \<Rightarrow> bool" where
  "test_block st ls \<longleftrightarrow>
     ls \<noteq> [] \<and> (\<forall>l\<in>set ls. newline \<notin> set l \<and> l \<noteq> [])
     \<and> length (filter result_line ls) = 1
     \<and> (st = ''FAIL'' \<or> st = ''PASS'')
     \<and> ((\<exists>l\<in>set ls. prefix ''--- FAIL:'' l) \<longleftrightarrow> st = ''FAIL'')"

section \<open>\<open>generate_xunit_files.py\<close>\<close>








subsection \<open>Reading an xUnit document\<close>










text \<open>The number a decimal numeral such as \<open>12.345\<close> denotes.\<close>

definition decimal_value :: "string \<Rightarrow> real" where
  "decimal_value s =
     (let whole = takeWhile (\<lambda>c. c \<noteq> CHR ''.'') s;
          frac = drop (length whole + 1) s
      in real (digits_value whole) + real (digits_value frac) / 10 ^ length frac)"



text \<open>What may follow an integer literal: the end, or a character that cannot extend it.\<close>

definition follow_ok :: "string \<Rightarrow> bool" where
  "follow_ok rest \<longleftrightarrow>
     rest = [] \<or> (\<not> is_digit (hd rest) \<and> hd rest \<noteq> CHR ''.'' \<and> hd rest \<noteq> CHR ''e''
                   \<and> hd rest \<noteq> CHR ''E'')"

text \<open>The fuel that reading a value back takes: one unit for each value and each item.\<close>

fun sz :: "json \<Rightarrow> nat"
  and szs :: "json list \<Rightarrow> nat"
  and szm :: "(string \<times> json) list \<Rightarrow> nat"
where
  "sz (JArr vs) = Suc (szs vs)"
| "sz (JObj kvs) = Suc (szm kvs)"
| "sz JNull = 1"
| "sz (JBool b) = 1"
| "sz (JStr s) = 1"
| "sz (JInt i) = 1"
| "sz (JFloat x) = 1"
| "szs [] = 0"
| "szs (v # vs) = Suc (sz v + szs vs)"
| "szm [] = 0"
| "szm ((k, v) # kvs) = Suc (sz v + szm kvs)"

section \<open>Auxiliary facts\<close>

subsection \<open>Characters of rendered numbers, lines of a text\<close>

lemma digit_char_is_digit: "is_digit (digit_char d)"
  unfolding digit_char_def is_digit_def by (rule nth_mem) simp

lemma is_digit_not_newline: "is_digit c \<Longrightarrow> c \<noteq> newline"
  unfolding is_digit_def by auto

lemma hex_char_in: "hex_char d \<in> set ''0123456789abcdef''"
  unfolding hex_char_def by (rule nth_mem) simp

lemma hex_char_not_newline: "hex_char d \<noteq> newline"
  using hex_char_in[of d] by auto

lemma dec_digits_digits: "c \<in> set (dec_digits n) \<Longrightarrow> is_digit c"
proof (induction n rule: dec_digits.induct)
  case (1 n)
  show ?case
  proof (cases "n < 10")
    case True
    then show ?thesis using "1.prems" digit_char_is_digit[of n]
      by (subst (asm) dec_digits.simps) simp
  next
    case False
    then show ?thesis using 1 digit_char_is_digit[of "n mod 10"]
      by (subst (asm) dec_digits.simps) auto
  qed
qed

lemma str_int_chars: "c \<in> set (str_int i) \<Longrightarrow> c = CHR ''-'' \<or> is_digit c"
  unfolding str_int_def by (auto split: if_splits dest: dec_digits_digits)

lemma format_0d_chars: "c \<in> set (format_0d w i) \<Longrightarrow> c = CHR ''-'' \<or> is_digit c"
  unfolding format_0d_def Let_def is_digit_def[of c]
  by (auto split: if_splits dest: dec_digits_digits simp: is_digit_def)

lemma str_int_no_newline: "newline \<notin> set (str_int i)"
  using str_int_chars[of newline i] is_digit_not_newline[of newline] by auto

lemma escape_char_no_newline: "newline \<notin> set (escape_char c)"
  unfolding escape_char_def using hex_char_not_newline[symmetric] by simp

lemma json_string_no_newline: "newline \<notin> set (json_string s)"
  unfolding json_string_def using escape_char_no_newline by auto

lemma set_py_join: "set (py_join sep xs) \<subseteq> set sep \<union> (\<Union>x\<in>set xs. set x)"
  by (induction sep xs rule: py_join.induct) auto

lemma json_layout_no_newline:
  assumes "\<forall>s\<in>set items. newline \<notin> set s" "newline \<notin> set opening" "newline \<notin> set closing"
  shows "newline \<notin> set (json_layout None lvl opening closing items)"
proof -
  have "newline \<notin> set (py_join '', '' items)"
    using assms(1) set_py_join[of "'', ''" items] by auto
  then show ?thesis using assms(2,3) unfolding json_layout_def by simp
qed


lemma file_lines_line:
  "newline \<notin> set l \<Longrightarrow> file_lines (l @ newline # rest) = l # file_lines rest"
  by (induction l) auto

lemma file_lines_Nil_iff: "file_lines l = [] \<longleftrightarrow> l = []"
  by (cases l) (auto split: list.splits)

lemma file_lines_last: "newline \<notin> set l \<Longrightarrow> l \<noteq> [] \<Longrightarrow> file_lines l = [l]"
proof (induction l)
  case Nil then show ?case by simp
next
  case (Cons c l)
  show ?case
  proof (cases "l = []")
    case True with Cons show ?thesis by auto
  next
    case False with Cons show ?thesis by auto
  qed
qed

lemma file_lines_join_nl:
  "\<forall>l\<in>set ls. newline \<notin> set l \<Longrightarrow> ls \<noteq> [] \<Longrightarrow>
   file_lines (py_join [newline] ls @ [newline]) = ls"
proof (induction ls)
  case Nil then show ?case by simp
next
  case (Cons x ys)
  show ?case
  proof (cases ys)
    case Nil
    then show ?thesis using Cons.prems file_lines_line[of x "[]"] by simp
  next
    case (Cons y zs)
    have nl: "newline \<notin> set x" using Cons.prems by simp
    have ih: "file_lines (py_join [newline] ys @ [newline]) = ys"
      using Cons.IH Cons.prems Cons by simp
    show ?thesis
      unfolding Cons using file_lines_line[OF nl] ih[unfolded Cons] by simp
  qed
qed

subsection \<open>The serialiser writes no raw newline\<close>

lemma json_encode_no_newline:
  "float_free v \<Longrightarrow> newline \<notin> set (json_encode fr None lvl v)"
  "float_free_items vs \<Longrightarrow> \<forall>s\<in>set (json_encode_items fr None lvl vs). newline \<notin> set s"
  "float_free_members kvs \<Longrightarrow> \<forall>s\<in>set (json_encode_members fr None lvl kvs). newline \<notin> set s"
  by (induction v and vs and kvs arbitrary: lvl and lvl and lvl
        rule: float_free_float_free_items_float_free_members.induct)
     (simp_all add: json_string_no_newline str_int_no_newline json_layout_no_newline)

lemma json_dumps_no_newline: "float_free v \<Longrightarrow> newline \<notin> set (json_dumps fr v)"
  unfolding json_dumps_def by (rule json_encode_no_newline)

lemma generate_span_float_free: "float_free (fst (generate_span t p n s r))"
  unfolding generate_span_def by (simp add: Let_def split: prod.splits)

lemma trace_spans_loop_float_free:
  "float_free_items spans \<Longrightarrow>
   float_free_items (fst (trace_spans_loop t b is spans p r))"
proof (induction "is" arbitrary: spans p r)
  case Nil then show ?case by simp
next
  case (Cons i "is")
  have app: "\<And>xs x. float_free_items xs \<Longrightarrow> float_free x \<Longrightarrow> float_free_items (xs @ [x])"
    subgoal for xs x by (induction xs) auto
    done
  obtain span r1 where g: "generate_span t p i (b + i * 1000000) r = (span, r1)"
    by (cases "generate_span t p i (b + i * 1000000) r")
  have ff: "float_free span" using generate_span_float_free[of t p i "b + i * 1000000" r] g by simp
  have nxt: "float_free_items (spans @ [span])" using app Cons.prems ff by simp
  show ?case using g Cons.IH[OF nxt]
    by (simp add: Let_def split: prod.splits)
qed

lemma trace_spans_loop_length:
  "length (fst (trace_spans_loop t b is spans p r)) = length spans + length is"
proof (induction "is" arbitrary: spans p r)
  case Nil then show ?case by simp
next
  case (Cons i "is")
  show ?case using Cons.IH
    by (simp add: Let_def split: prod.splits)
qed

lemma write_file_ok:
  "path_parent path \<in> dirs w \<Longrightarrow>
   write_file path text w = Inr (w\<lparr>files := (files w)(path \<mapsto> text)\<rparr>)"
  by (simp add: write_file_def)

subsection \<open>Names and numbers\<close>

lemma is_lower_plain:
  "is_lower c \<Longrightarrow> c \<noteq> newline \<and> c \<noteq> CHR '' '' \<and> c \<noteq> CHR ''<'' \<and> c \<noteq> CHR ''>'' \<and> c \<noteq> CHR 0x22 \<and> c \<noteq> CHR ''/''"
  unfolding is_lower_def by auto

lemma is_upper_plain:
  "is_upper c \<Longrightarrow> c \<noteq> newline \<and> c \<noteq> CHR '' '' \<and> c \<noteq> CHR ''<'' \<and> c \<noteq> CHR ''>'' \<and> c \<noteq> CHR 0x22 \<and> c \<noteq> CHR ''/''"
  unfolding is_upper_def by auto

lemma is_digit_plain:
  "is_digit c \<Longrightarrow> c \<noteq> newline \<and> c \<noteq> CHR '' '' \<and> c \<noteq> CHR ''<'' \<and> c \<noteq> CHR ''>'' \<and> c \<noteq> CHR 0x22 \<and> c \<noteq> CHR ''/''"
  unfolding is_digit_def by auto

lemma name_char_plain:
  "name_char c \<Longrightarrow> c \<noteq> newline \<and> c \<noteq> CHR '' '' \<and> c \<noteq> CHR ''<'' \<and> c \<noteq> CHR ''>'' \<and> c \<noteq> CHR 0x22 \<and> c \<noteq> CHR ''/''"
  unfolding name_char_def using is_lower_plain[of c] is_upper_plain[of c] is_digit_plain[of c]
  by auto

lemma to_upper_cases: "to_upper c = c \<or> is_upper (to_upper c)"
proof (cases "map_of (zip ''abcdefghijklmnopqrstuvwxyz'' ''ABCDEFGHIJKLMNOPQRSTUVWXYZ'') c")
  case None then show ?thesis by (simp add: to_upper_def)
next
  case (Some u)
  then have "u \<in> set ''ABCDEFGHIJKLMNOPQRSTUVWXYZ''"
    by (meson map_of_SomeD set_zip_rightD)
  then show ?thesis using Some by (simp add: to_upper_def is_upper_def)
qed

lemma to_lower_cases: "to_lower c = c \<or> is_lower (to_lower c)"
proof (cases "map_of (zip ''ABCDEFGHIJKLMNOPQRSTUVWXYZ'' ''abcdefghijklmnopqrstuvwxyz'') c")
  case None then show ?thesis by (simp add: to_lower_def)
next
  case (Some u)
  then have "u \<in> set ''abcdefghijklmnopqrstuvwxyz''"
    by (meson map_of_SomeD set_zip_rightD)
  then show ?thesis using Some by (simp add: to_lower_def is_lower_def)
qed

lemma title_from_name_chars:
  "\<forall>c\<in>set s. name_char c \<Longrightarrow> \<forall>c\<in>set (title_from b s). name_char c"
proof (induction s arbitrary: b)
  case Nil then show ?case by simp
next
  case (Cons c s)
  have u: "name_char (to_upper c)" using to_upper_cases[of c] Cons.prems
    by (auto simp: name_char_def)
  have l: "name_char (to_lower c)" using to_lower_cases[of c] Cons.prems
    by (auto simp: name_char_def)
  show ?case using Cons u l by simp
qed

lemma title_name_chars: "\<forall>c\<in>set s. name_char c \<Longrightarrow> \<forall>c\<in>set (title s). name_char c"
  unfolding title_def by (rule title_from_name_chars)

lemma format_0d_name_chars: "\<forall>c\<in>set (format_0d w i). name_char c"
  using format_0d_chars[of _ w i] by (auto simp: name_char_def)


lemma dec_digits_name_chars: "\<forall>c\<in>set (dec_digits n). name_char c"
  using dec_digits_digits[of _ n] by (auto simp: name_char_def)

lemma format_3f_name_chars: "\<forall>c\<in>set (format_3f x). name_char c"
proof -
  have a: "name_char (CHR ''-'')" "name_char (CHR ''.'')" by (simp_all add: name_char_def)
  show ?thesis unfolding format_3f_def Let_def
    using dec_digits_name_chars format_0d_name_chars a by (simp add: ball_Un)
qed

lemma module_name_chars: "\<forall>c\<in>set (''module_'' @ format_0d 4 n). name_char c"
proof -
  have "\<forall>c\<in>set ''module_''. name_char c" by (simp add: name_char_def is_lower_def)
  then show ?thesis using format_0d_name_chars[of 4 n] by (simp add: ball_Un)
qed

subsection \<open>Test transcripts\<close>

lemma name_chars_no_newline: "\<forall>c\<in>set s. name_char c \<Longrightarrow> newline \<notin> set s"
  using name_char_plain by blast

lemma log_line_facts:
  assumes "newline \<notin> set name"
  shows "newline \<notin> set (log_line name i)" "log_line name i \<noteq> []"
    "\<not> result_line (log_line name i)" "\<not> prefix ''--- FAIL:'' (log_line name i)"
  using assms str_int_no_newline[of "i + 1"]
  by (simp_all add: log_line_def result_line_def)

lemma log_lines_facts:
  assumes "newline \<notin> set name"
  shows "\<forall>l\<in>set (map (log_line name) is). newline \<notin> set l \<and> l \<noteq> []"
    "filter result_line (map (log_line name) is) = []"
    "\<forall>l\<in>set (map (log_line name) is). \<not> prefix ''--- FAIL:'' l"
  using log_line_facts[OF assms] by (induction "is") simp_all

lemma test_output_lines_block:
  assumes m: "\<forall>c\<in>set m. name_char c"
      and t: "test_output_lines n m sf r = ((ls, st), r')"
  shows "test_block st ls"
proof -
  define name where "name = ''Test'' @ title m @ ''_Case'' @ format_0d 4 n"
  have nn: "newline \<notin> set name"
    unfolding name_def
    using name_chars_no_newline[OF title_name_chars[OF m]]
          name_chars_no_newline[OF format_0d_name_chars[of 4 n]]
    by simp
  obtain d r1 where d: "random_uniform 0.001 0.5 r = (d, r1)"
    by (cases "random_uniform 0.001 0.5 r")
  obtain k r2 where k: "random_randint 2 8 r1 = (k, r2)"
    by (cases "random_randint 2 8 r1")
  define logs where "logs = map (log_line name) (py_range k)"
  note lf = log_lines_facts[OF nn, of "py_range k", folded logs_def]
  have f3: "newline \<notin> set (format_3f d)"
    by (rule name_chars_no_newline[OF format_3f_name_chars])
  show ?thesis
  proof (cases sf)
    case True
    obtain e r3 where e: "random_randint 1 100 r2 = (e, r3)"
      by (cases "random_randint 1 100 r2")
    obtain a r4 where a: "random_randint 1 100 r3 = (a, r4)"
      by (cases "random_randint 1 100 r3")
    have ls: "ls = [''=== RUN   '' @ name] @ logs @
                   [''    '' @ name @ '': assertion failed'',
                    ''        Expected: '' @ str_int e,
                    ''        Actual: '' @ str_int a,
                    ''--- FAIL: '' @ name @ '' ('' @ format_3f d @ ''s)'']"
      and st: "st = ''FAIL''"
      using t True d k e a unfolding test_output_lines_def name_def logs_def
      by (simp_all add: Let_def)
    show ?thesis unfolding test_block_def ls st
      using nn lf f3 str_int_no_newline[of e] str_int_no_newline[of a]
      by (simp add: result_line_def)
  next
    case False
    have ls: "ls = [''=== RUN   '' @ name] @ logs @
                   [''--- PASS: '' @ name @ '' ('' @ format_3f d @ ''s)'']"
      and st: "st = ''PASS''"
      using t False d k unfolding test_output_lines_def name_def logs_def
      by (simp_all add: Let_def)
    show ?thesis unfolding test_block_def ls st
      using nn lf f3 by (simp add: result_line_def)
  qed
qed

lemma py_join_append:
  "xs \<noteq> [] \<Longrightarrow> ys \<noteq> [] \<Longrightarrow> py_join sep (xs @ ys) = py_join sep xs @ sep @ py_join sep ys"
proof (induction sep xs rule: py_join.induct)
  case (1 sep) then show ?case by simp
next
  case (2 sep x)
  then show ?case by (cases ys) simp_all
next
  case (3 sep x y zs) then show ?case by simp
qed

lemma py_join_Cons: "ys \<noteq> [] \<Longrightarrow> py_join sep (x # ys) = x @ sep @ py_join sep ys"
  by (cases ys) simp_all

lemma py_join_blocks:
  "\<forall>b\<in>set bs. b \<noteq> [] \<Longrightarrow> rest \<noteq> [] \<Longrightarrow>
   py_join sep (map (py_join sep) bs @ rest) = py_join sep (concat bs @ rest)"
proof (induction bs)
  case Nil then show ?case by simp
next
  case (Cons b bs)
  have ne: "map (py_join sep) bs @ rest \<noteq> []" "concat bs @ rest \<noteq> []" "b \<noteq> []"
    using Cons.prems by simp_all
  have "py_join sep (map (py_join sep) (b # bs) @ rest)
        = py_join sep b @ sep @ py_join sep (map (py_join sep) bs @ rest)"
    using py_join_Cons[OF ne(1)] by simp
  also have "\<dots> = py_join sep b @ sep @ py_join sep (concat bs @ rest)"
    using Cons by simp
  also have "\<dots> = py_join sep (b @ (concat bs @ rest))"
    using py_join_append[OF ne(3) ne(2)] by simp
  finally show ?case by simp
qed

lemma file_lines_join:
  "\<forall>l\<in>set ls. newline \<notin> set l \<Longrightarrow> ls \<noteq> [] \<Longrightarrow> last ls \<noteq> [] \<Longrightarrow>
   file_lines (py_join [newline] ls) = ls"
proof (induction ls)
  case Nil then show ?case by simp
next
  case (Cons x ys)
  show ?case
  proof (cases ys)
    case Nil
    then show ?thesis using Cons.prems file_lines_last[of x] by simp
  next
    case (Cons y zs)
    have nl: "newline \<notin> set x" using Cons.prems by simp
    have ih: "file_lines (py_join [newline] ys) = ys"
      using Cons.IH Cons.prems Cons by simp
    show ?thesis
      unfolding Cons using file_lines_line[OF nl] ih[unfolded Cons] by simp
  qed
qed

lemma suite_loop_blocks:
  assumes m: "\<forall>c\<in>set m. name_char c"
  shows "suite_loop m fr is lines nf np r = (lines', nf', np', r') \<Longrightarrow>
    \<exists>bs. lines' = lines @ map (py_join [newline] \<circ> snd) bs \<and> length bs = length is
        \<and> (\<forall>b\<in>set bs. test_block (fst b) (snd b))
        \<and> nf' = nf + int (length (filter (\<lambda>b. fst b = ''FAIL'') bs))"
proof (induction "is" arbitrary: lines nf np r)
  case Nil then show ?case by simp
next
  case (Cons i "is")
  obtain u r1 where u: "random_random r = (u, r1)" by (cases "random_random r")
  obtain ls st r2 where t: "test_output_lines i m (u < fr) r1 = ((ls, st), r2)"
    by (cases "test_output_lines i m (u < fr) r1") auto
  have blk: "test_block st ls" by (rule test_output_lines_block[OF m t])
  have g: "generate_test_output i m (u < fr) r1 = ((py_join [newline] ls, st), r2)"
    unfolding generate_test_output_def using t by simp
  let ?nf = "if st = ''FAIL'' then nf + 1 else nf"
  let ?np = "if st = ''FAIL'' then np else np + 1"
  have step: "suite_loop m fr is (lines @ [py_join [newline] ls]) ?nf ?np r2 = (lines', nf', np', r')"
    using Cons.prems by (simp add: u g Let_def split: if_splits)
  from Cons.IH[OF step] obtain bs where
    bs: "lines' = (lines @ [py_join [newline] ls]) @ map (py_join [newline] \<circ> snd) bs"
        "length bs = length is" "\<forall>b\<in>set bs. test_block (fst b) (snd b)"
        "nf' = ?nf + int (length (filter (\<lambda>b. fst b = ''FAIL'') bs))"
    by blast
  show ?case
    by (rule exI[of _ "(st, ls) # bs"]) (use bs blk in simp)
qed

lemma blocks_result_lines:
  "\<forall>b\<in>set bs. test_block (fst b) (snd b) \<Longrightarrow>
   length (filter result_line (concat (map snd bs))) = length bs"
  by (induction bs) (simp_all add: test_block_def)

lemma blocks_fail_lines:
  assumes "\<forall>b\<in>set bs. test_block (fst b) (snd b)"
  shows "(\<exists>l\<in>set (concat (map snd bs)). prefix ''--- FAIL:'' l)
         \<longleftrightarrow> 0 < length (filter (\<lambda>b. fst b = ''FAIL'') bs)"
proof -
  have h: "\<forall>b\<in>set bs. (\<exists>l\<in>set (snd b). prefix ''--- FAIL:'' l) \<longleftrightarrow> fst b = ''FAIL''"
    using assms unfolding test_block_def by simp
  have "(\<exists>l\<in>set (concat (map snd bs)). prefix ''--- FAIL:'' l)
        \<longleftrightarrow> (\<exists>b\<in>set bs. \<exists>l\<in>set (snd b). prefix ''--- FAIL:'' l)"
    by simp
  also have "\<dots> \<longleftrightarrow> (\<exists>b\<in>set bs. fst b = ''FAIL'')"
    using h by blast
  also have "\<dots> \<longleftrightarrow> 0 < length (filter (\<lambda>b. fst b = ''FAIL'') bs)"
    by (simp add: filter_empty_conv)
  finally show ?thesis .
qed

lemma blocks_lines_plain:
  assumes "\<forall>b\<in>set bs. test_block (fst b) (snd b)"
  shows "\<forall>l\<in>set (concat (map snd bs)). newline \<notin> set l"
    and "\<forall>b\<in>set (map snd bs). b \<noteq> []"
  using assms unfolding test_block_def by simp_all

subsection \<open>xUnit documents\<close>




















subsection \<open>Reading back what \<open>json.dumps\<close> wrote\<close>

lemma digit_value_digit_char: "digit_value (digit_char d) = d mod 10"
proof -
  have "map_of (zip ''0123456789'' [0..<10]) (''0123456789'' ! (d mod 10)) = Some ([0..<10] ! (d mod 10))"
    by (rule map_of_zip_nth) simp_all
  then show ?thesis by (simp add: digit_value_def digit_char_def)
qed

lemma hex_value_hex_char: "hex_value (hex_char d) = Some (d mod 16)"
proof -
  have "map_of (zip ''0123456789abcdef'' [0..<16]) (''0123456789abcdef'' ! (d mod 16)) = Some ([0..<16] ! (d mod 16))"
    by (rule map_of_zip_nth) simp_all
  then show ?thesis by (simp add: hex_value_def hex_char_def)
qed

lemma hex_value_zero: "hex_value (CHR ''0'') = Some 0"
  using hex_value_hex_char[of 0] by (simp add: hex_char_def)

lemma parse_string_escape:
  "parse_string (escape_char c @ rest) = map_option (apfst ((#) c)) (parse_string rest)"
proof -
  have n: "(of_char c :: nat) < 256" by simp
  have "(of_char c :: nat) div 16 < 16" using n by arith
  then have d: "(of_char c :: nat) div 16 mod 16 = of_char c div 16" by simp
  have r: "char_of (16 * ((of_char c :: nat) div 16) + of_char c mod 16) = c" by simp
  show ?thesis
    unfolding escape_char_def
    by (simp add: unescape_def hex_value_zero hex_value_hex_char d r)
qed

lemma parse_string_json_string:
  "parse_string (concat (map escape_char s) @ CHR 0x22 # rest) = Some (s, rest)"
  by (induction s) (simp_all add: parse_string_escape)

lemma digits_value_snoc: "digits_value (xs @ [c]) = 10 * digits_value xs + digit_value c"
  by (simp add: digits_value_def)

lemma digits_value_dec_digits: "digits_value (dec_digits n) = n"
proof (induction n rule: dec_digits.induct)
  case (1 n)
  show ?case
  proof (cases "n < 10")
    case True
    then show ?thesis
      by (subst dec_digits.simps) (simp add: digits_value_def digit_value_digit_char)
  next
    case False
    then show ?thesis using 1
      by (subst dec_digits.simps) (simp add: digits_value_snoc digit_value_digit_char)
  qed
qed

lemma dec_digits_nonempty: "dec_digits n \<noteq> []"
  by (subst dec_digits.simps) simp

lemma digit_value_zero: "digit_value (CHR ''0'') = 0"
  using digit_value_digit_char[of 0] by (simp add: digit_char_def)

lemma digit_char_zero: "digit_char d = CHR ''0'' \<Longrightarrow> d mod 10 = 0"
  using digit_value_digit_char[of d] digit_value_zero by simp

lemma dec_digits_hd: "0 < n \<Longrightarrow> hd (dec_digits n) \<noteq> CHR ''0''"
proof (induction n rule: dec_digits.induct)
  case (1 n)
  show ?case
  proof (cases "n < 10")
    case True
    then show ?thesis using "1.prems" digit_char_zero[of n]
      by (subst dec_digits.simps) auto
  next
    case False
    then have "0 < n div 10" by simp
    then have "hd (dec_digits (n div 10)) \<noteq> CHR ''0''" using "1.IH" False by simp
    then show ?thesis using False dec_digits_nonempty[of "n div 10"]
      by (subst dec_digits.simps) simp
  qed
qed

lemma dec_digits_zero: "dec_digits 0 = ''0''"
  by (subst dec_digits.simps) (simp add: digit_char_def)

lemma dec_digits_no_leading_zero:
  "\<not> (1 < length (dec_digits n) \<and> hd (dec_digits n) = CHR ''0'')"
  by (cases "n = 0") (simp_all add: dec_digits_zero dec_digits_hd)

lemma takeWhile_digits:
  "follow_ok rest \<Longrightarrow> takeWhile is_digit (dec_digits n @ rest) = dec_digits n"
  "follow_ok rest \<Longrightarrow> dropWhile is_digit (dec_digits n @ rest) = rest"
proof -
  assume f: "follow_ok rest"
  have all: "\<forall>c\<in>set (dec_digits n). is_digit c" using dec_digits_digits by blast
  have r: "takeWhile is_digit rest = []" "dropWhile is_digit rest = rest"
    using f by (cases rest; simp add: follow_ok_def)+
  show "takeWhile is_digit (dec_digits n @ rest) = dec_digits n"
    using all r by (simp add: takeWhile_append2)
  show "dropWhile is_digit (dec_digits n @ rest) = rest"
    using all r by (simp add: dropWhile_append2)
qed

lemma dec_digits_hd_digit: "hd (dec_digits n) \<noteq> CHR ''-''"
  using dec_digits_digits[of "hd (dec_digits n)" n] dec_digits_nonempty[of n]
  by (auto simp: is_digit_def)

lemma parse_number_str_int:
  assumes "follow_ok rest"
  shows "parse_number (str_int i @ rest) = Some (JInt i, rest)"
proof -
  define ds where "ds = dec_digits (nat \<bar>i\<bar>)"
  have ne: "(ds = []) = False" unfolding ds_def using dec_digits_nonempty by simp
  have nz: "(1 < length ds \<and> hd ds = CHR ''0'') = False"
    unfolding ds_def using dec_digits_no_leading_zero by simp
  have hdm: "hd ds \<noteq> CHR ''-''" unfolding ds_def by (rule dec_digits_hd_digit)
  have tw: "takeWhile is_digit (ds @ rest) = ds" "dropWhile is_digit (ds @ rest) = rest"
    unfolding ds_def using takeWhile_digits[OF assms] by simp_all
  have v: "digits_value ds = nat \<bar>i\<bar>" unfolding ds_def by (rule digits_value_dec_digits)
  have fr: "(rest \<noteq> [] \<and> hd rest = CHR ''.'') = False"
           "(rest \<noteq> [] \<and> (hd rest = CHR ''e'' \<or> hd rest = CHR ''E'')) = False"
    using assms by (auto simp: follow_ok_def)
  show ?thesis
  proof (cases "i < 0")
    case True
    have s: "str_int i @ rest = CHR ''-'' # ds @ rest" using True by (simp add: str_int_def ds_def)
    have neg: "(CHR ''-'' # ds @ rest \<noteq> [] \<and> hd (CHR ''-'' # ds @ rest) = CHR ''-'') = True"
      by simp
    have val: "- 1 * int (nat \<bar>i\<bar>) = i" using True by simp
    show ?thesis unfolding s parse_number_def Let_def neg
      by (simp only: if_True list.sel tw fr ne nz v val if_False simp_thms)
  next
    case False
    have s: "str_int i @ rest = ds @ rest" using False by (simp add: str_int_def ds_def)
    have neg: "(ds @ rest \<noteq> [] \<and> hd (ds @ rest) = CHR ''-'') = False"
      using ne hdm by (cases ds) simp_all
    have val: "1 * int (nat \<bar>i\<bar>) = i" using False by simp
    show ?thesis unfolding s parse_number_def Let_def neg
      by (simp only: if_True list.sel tw fr ne nz v val if_False simp_thms)
  qed
qed

lemma skip_ws_append: "\<forall>c\<in>set w. is_ws c \<Longrightarrow> skip_ws (w @ s) = skip_ws s"
  unfolding skip_ws_def by (induction w) simp_all

lemma skip_ws_Cons: "\<not> is_ws c \<Longrightarrow> skip_ws (c # s) = c # s"
  unfolding skip_ws_def by simp

lemma is_ws_simps:
  "\<not> is_ws (CHR 0x22)" "\<not> is_ws (CHR ''['')" "\<not> is_ws (CHR '']'')" "\<not> is_ws (CHR ''{'')"
  "\<not> is_ws (CHR ''}'')" "\<not> is_ws (CHR '','')" "\<not> is_ws (CHR '':'')" "\<not> is_ws (CHR ''-'')"
  "\<not> is_ws (CHR ''n'')" "\<not> is_ws (CHR ''t'')" "\<not> is_ws (CHR ''f'')"
  "is_ws (CHR '' '')" "is_ws newline"
  by (simp_all add: is_ws_def)

lemma is_digit_not_ws: "is_digit c \<Longrightarrow> \<not> is_ws c"
  unfolding is_digit_def is_ws_def by auto

lemma is_digit_not_special:
  "is_digit c \<Longrightarrow> c \<noteq> CHR 0x22 \<and> c \<noteq> CHR ''['' \<and> c \<noteq> CHR '']'' \<and> c \<noteq> CHR ''{'' \<and> c \<noteq> CHR ''}''
     \<and> c \<noteq> CHR ''t'' \<and> c \<noteq> CHR ''f'' \<and> c \<noteq> CHR ''n''"
  unfolding is_digit_def by auto

lemma follow_ok_ws: "is_ws c \<Longrightarrow> follow_ok (c # s)"
  unfolding follow_ok_def is_ws_def is_digit_def by auto

lemma follow_ok_simps:
  "follow_ok []" "follow_ok (CHR '','' # s)" "follow_ok (CHR '']'' # s)" "follow_ok (CHR ''}'' # s)"
  by (simp_all add: follow_ok_def is_digit_def)

lemma follow_ok_post:
  "\<forall>c\<in>set post. is_ws c \<Longrightarrow> follow_ok (post @ CHR '']'' # s)"
  "\<forall>c\<in>set post. is_ws c \<Longrightarrow> follow_ok (post @ CHR ''}'' # s)"
  by (cases post; simp add: follow_ok_simps follow_ok_ws)+

lemma str_int_head: "\<exists>c cs. str_int i = c # cs \<and> (c = CHR ''-'' \<or> is_digit c)"
proof (cases "i < 0")
  case True then show ?thesis by (simp add: str_int_def)
next
  case False
  obtain c cs where d: "dec_digits (nat \<bar>i\<bar>) = c # cs"
    using dec_digits_nonempty[of "nat \<bar>i\<bar>"] by (cases "dec_digits (nat \<bar>i\<bar>)") auto
  then have "is_digit c" using dec_digits_digits[of c "nat \<bar>i\<bar>"] by simp
  then show ?thesis using False d by (simp add: str_int_def)
qed

lemma layout_form:
  assumes "items \<noteq> []"
  shows "\<exists>pre mid post. (\<forall>c\<in>set (pre @ mid @ post). is_ws c)
           \<and> json_layout ind lvl [op] [cl] items
               = op # pre @ py_join (CHR '','' # mid) items @ post @ [cl]"
proof (cases ind)
  case None
  show ?thesis
    apply (rule exI[of _ "[]"], rule exI[of _ "'' ''"], rule exI[of _ "[]"])
    using assms None by (simp add: json_layout_def is_ws_simps)
next
  case (Some k)
  show ?thesis
    apply (rule exI[of _ "newline # replicate (k * (lvl + 1)) (CHR '' '')"])
    apply (rule exI[of _ "newline # replicate (k * (lvl + 1)) (CHR '' '')"])
    apply (rule exI[of _ "newline # replicate (k * lvl) (CHR '' '')"])
    using assms Some by (auto simp: json_layout_def is_ws_simps)
qed

text \<open>The first character of an encoded value starts a JSON value.\<close>

lemma encode_head:
  "float_free v \<Longrightarrow>
   \<exists>c cs. json_encode fr ind lvl v = c # cs \<and> \<not> is_ws c \<and> c \<noteq> CHR '']'' \<and> c \<noteq> CHR ''}''"
proof (cases v)
  case JNull then show ?thesis by (simp add: is_ws_simps)
next
  case (JBool b) then show ?thesis by (simp add: is_ws_simps)
next
  case (JStr s) then show ?thesis by (simp add: json_string_def is_ws_simps)
next
  case (JInt i)
  obtain c cs where "str_int i = c # cs" "c = CHR ''-'' \<or> is_digit c"
    using str_int_head by blast
  then show ?thesis using JInt is_digit_not_ws[of c] is_digit_not_special[of c]
    by (auto simp: is_ws_simps)
next
  case (JFloat x)
  assume "float_free v" then show ?thesis using JFloat by simp
next
  case (JArr vs)
  show ?thesis
  proof (cases "json_encode_items fr ind (lvl + 1) vs = []")
    case True then show ?thesis using JArr by (simp add: json_layout_def is_ws_simps)
  next
    case False
    from layout_form[OF False, of ind lvl "CHR ''[''" "CHR '']''"]
    show ?thesis using JArr by (auto simp: is_ws_simps)
  qed
next
  case (JObj kvs)
  show ?thesis
  proof (cases "json_encode_members fr ind (lvl + 1) kvs = []")
    case True then show ?thesis using JObj by (simp add: json_layout_def is_ws_simps)
  next
    case False
    from layout_form[OF False, of ind lvl "CHR ''{''" "CHR ''}''"]
    show ?thesis using JObj by (auto simp: is_ws_simps)
  qed
qed

lemma encode_items_Nil: "json_encode_items fr ind lvl vs = [] \<longleftrightarrow> vs = []"
  by (cases vs) simp_all

lemma encode_members_Nil: "json_encode_members fr ind lvl kvs = [] \<longleftrightarrow> kvs = []"
  by (cases kvs) auto

lemma py_join_Cons2: "ys \<noteq> [] \<Longrightarrow> py_join sep (x # ys) = x @ sep @ py_join sep ys"
  by (cases ys) simp_all

lemma parse_value_leaf:
  assumes "s = c # cs" "\<not> is_ws c" "\<forall>x\<in>set w. is_ws x"
  shows "parse_value (Suc n) (w @ s) =
     (if c = CHR 0x22 then map_option (apfst JStr) (parse_string cs)
          else if c = CHR ''['' then
            (case skip_ws cs of
               [] \<Rightarrow> None
             | c1 # cs1 \<Rightarrow>
                 if c1 = CHR '']'' then Some (JArr [], cs1)
                 else map_option (apfst JArr) (parse_elements n cs))
          else if c = CHR ''{'' then
            (case skip_ws cs of
               [] \<Rightarrow> None
             | c1 # cs1 \<Rightarrow>
                 if c1 = CHR ''}'' then Some (JObj [], cs1)
                 else map_option (apfst JObj) (parse_members n cs))
          else if prefix ''true'' (c # cs) then Some (JBool True, drop 4 (c # cs))
          else if prefix ''false'' (c # cs) then Some (JBool False, drop 5 (c # cs))
          else if prefix ''null'' (c # cs) then Some (JNull, drop 4 (c # cs))
          else parse_number (c # cs))"
  using assms by (simp add: skip_ws_append skip_ws_Cons)

lemma parse_elements_step:
  assumes "parse_value n s = Some (v, c # cs)" "\<not> is_ws c"
  shows "parse_elements (Suc n) s =
           (if c = CHR '','' then map_option (apfst ((#) v)) (parse_elements n cs)
            else if c = CHR '']'' then Some ([v], cs) else None)"
  using assms by (simp add: skip_ws_Cons)

lemma parse_elements_step_ws:
  assumes "parse_value n s = Some (v, post @ CHR '']'' # rest)" "\<forall>x\<in>set post. is_ws x"
  shows "parse_elements (Suc n) s = Some ([v], rest)"
  using assms by (simp add: skip_ws_append skip_ws_Cons is_ws_simps)

lemma parse_members_step:
  assumes "\<forall>x\<in>set w. is_ws x"
    and "parse_value n (CHR '' '' # t) = Some (v, r)"
  shows "parse_members (Suc n) (w @ json_string k @ '': '' @ t) =
           (case skip_ws r of
              [] \<Rightarrow> None
            | c2 # cs2 \<Rightarrow>
                if c2 = CHR '','' then map_option (apfst ((#) (k, v))) (parse_members n cs2)
                else if c2 = CHR ''}'' then Some ([(k, v)], cs2) else None)"
  using assms
  by (simp add: json_string_def skip_ws_append skip_ws_Cons is_ws_simps parse_string_json_string)

lemma roundtrip:
  "float_free v \<Longrightarrow> sz v \<le> n \<Longrightarrow> follow_ok rest \<Longrightarrow> \<forall>c\<in>set w. is_ws c \<Longrightarrow>
     parse_value n (w @ json_encode fr ind lvl v @ rest) = Some (v, rest)"
  "float_free_items vs \<Longrightarrow> vs \<noteq> [] \<Longrightarrow> szs vs \<le> n \<Longrightarrow>
     \<forall>c\<in>set w. is_ws c \<Longrightarrow> \<forall>c\<in>set mid. is_ws c \<Longrightarrow> \<forall>c\<in>set post. is_ws c \<Longrightarrow>
     parse_elements n (w @ py_join (CHR '','' # mid) (json_encode_items fr ind lvl vs)
                         @ post @ CHR '']'' # rest) = Some (vs, rest)"
  "float_free_members kvs \<Longrightarrow> kvs \<noteq> [] \<Longrightarrow> szm kvs \<le> n \<Longrightarrow>
     \<forall>c\<in>set w. is_ws c \<Longrightarrow> \<forall>c\<in>set mid. is_ws c \<Longrightarrow> \<forall>c\<in>set post. is_ws c \<Longrightarrow>
     parse_members n (w @ py_join (CHR '','' # mid) (json_encode_members fr ind lvl kvs)
                        @ post @ CHR ''}'' # rest) = Some (kvs, rest)"
proof (induction v and vs and kvs arbitrary: n rest w lvl and n rest w mid post lvl
         and n rest w mid post lvl rule: sz_szs_szm.induct)
  case (1 vs)
  obtain m where n: "n = Suc m" and m: "szs vs \<le> m" using "1.prems"(2) by (cases n) auto
  show ?case
  proof (cases "vs = []")
    case True
    have "parse_value (Suc m) (w @ CHR ''['' # CHR '']'' # rest) = Some (JArr [], rest)"
      using parse_value_leaf[of "CHR ''['' # CHR '']'' # rest" "CHR ''[''" "CHR '']'' # rest" w m]
        "1.prems"(4)
      by (simp add: is_ws_simps skip_ws_Cons)
    then show ?thesis using True n by (simp add: json_layout_def)
  next
    case False
    have ne: "json_encode_items fr ind (Suc lvl) vs \<noteq> []" using False by (simp add: encode_items_Nil)
    from layout_form[OF ne, of ind lvl "CHR ''[''" "CHR '']''"] obtain pre mid post where
      ws: "\<forall>c\<in>set pre. is_ws c" "\<forall>c\<in>set mid. is_ws c" "\<forall>c\<in>set post. is_ws c"
      and lay: "json_layout ind lvl ''['' '']'' (json_encode_items fr ind (Suc lvl) vs)
                = CHR ''['' # pre @ py_join (CHR '','' # mid) (json_encode_items fr ind (Suc lvl) vs)
                  @ post @ '']''"
      by auto
    define body where "body = py_join (CHR '','' # mid) (json_encode_items fr ind (Suc lvl) vs)
                               @ post @ CHR '']'' # rest"
    obtain v0 vs0 where vs: "vs = v0 # vs0" using False by (cases vs) auto
    have ff0: "float_free v0" using "1.prems"(1) vs by simp
    obtain c cs where hd0: "json_encode fr ind (Suc lvl) v0 = c # cs" "\<not> is_ws c" "c \<noteq> CHR '']''"
      using encode_head[OF ff0, of fr ind "Suc lvl"] by blast
    have "\<exists>t. body = c # t"
      unfolding body_def vs using hd0(1) by (cases vs0) simp_all
    then obtain t where bt: "body = c # t" by blast
    have sk: "skip_ws (pre @ body) = c # t"
      using ws(1) hd0(2) bt by (simp add: skip_ws_append skip_ws_Cons)
    have el: "parse_elements m (pre @ body) = Some (vs, rest)"
      unfolding body_def using "1.IH"[of m pre mid post "Suc lvl" rest] "1.prems"(1) False m ws
      by simp
    have "parse_value (Suc m) (w @ CHR ''['' # pre @ body) = Some (JArr vs, rest)"
      using parse_value_leaf[of "CHR ''['' # pre @ body" "CHR ''[''" "pre @ body" w m] "1.prems"(4)
        sk hd0(3) el
      by (simp add: is_ws_simps)
    moreover have "w @ json_encode fr ind lvl (JArr vs) @ rest = w @ CHR ''['' # pre @ body"
      unfolding body_def using lay by simp
    ultimately show ?thesis unfolding n by (simp only:)
  qed
next
  case (2 kvs)
  obtain m where n: "n = Suc m" and m: "szm kvs \<le> m" using "2.prems"(2) by (cases n) auto
  show ?case
  proof (cases "kvs = []")
    case True
    have "parse_value (Suc m) (w @ CHR ''{'' # CHR ''}'' # rest) = Some (JObj [], rest)"
      using parse_value_leaf[of "CHR ''{'' # CHR ''}'' # rest" "CHR ''{''" "CHR ''}'' # rest" w m]
        "2.prems"(4)
      by (simp add: is_ws_simps skip_ws_Cons)
    then show ?thesis using True n by (simp add: json_layout_def)
  next
    case False
    have ne: "json_encode_members fr ind (Suc lvl) kvs \<noteq> []"
      using False by (simp add: encode_members_Nil)
    from layout_form[OF ne, of ind lvl "CHR ''{''" "CHR ''}''"] obtain pre mid post where
      ws: "\<forall>c\<in>set pre. is_ws c" "\<forall>c\<in>set mid. is_ws c" "\<forall>c\<in>set post. is_ws c"
      and lay: "json_layout ind lvl ''{'' ''}'' (json_encode_members fr ind (Suc lvl) kvs)
                = CHR ''{'' # pre @ py_join (CHR '','' # mid) (json_encode_members fr ind (Suc lvl) kvs)
                  @ post @ ''}''"
      by auto
    define body where "body = py_join (CHR '','' # mid) (json_encode_members fr ind (Suc lvl) kvs)
                               @ post @ CHR ''}'' # rest"
    obtain k0 v0 kvs0 where kvs: "kvs = (k0, v0) # kvs0" using False by (cases kvs) auto
    have "\<exists>t. body = CHR 0x22 # t"
      unfolding body_def kvs by (cases kvs0) (auto simp: json_string_def)
    then obtain t where bt: "body = CHR 0x22 # t" by blast
    have sk: "skip_ws (pre @ body) = CHR 0x22 # t"
      using ws(1) bt by (simp add: skip_ws_append skip_ws_Cons is_ws_simps)
    have el: "parse_members m (pre @ body) = Some (kvs, rest)"
      unfolding body_def using "2.IH"[of m pre mid post "Suc lvl" rest] "2.prems"(1) False m ws
      by simp
    have "parse_value (Suc m) (w @ CHR ''{'' # pre @ body) = Some (JObj kvs, rest)"
      using parse_value_leaf[of "CHR ''{'' # pre @ body" "CHR ''{''" "pre @ body" w m] "2.prems"(4)
        sk el
      by (simp add: is_ws_simps)
    moreover have "w @ json_encode fr ind lvl (JObj kvs) @ rest = w @ CHR ''{'' # pre @ body"
      unfolding body_def using lay by simp
    ultimately show ?thesis unfolding n by (simp only:)
  qed
next
  case 3
  obtain m where n: "n = Suc m" using "3.prems"(2) by (cases n) auto
  show ?case unfolding n
    using parse_value_leaf[of "''null'' @ rest" "CHR ''n''" "''ull'' @ rest" w m] "3.prems"(4)
    by (simp add: is_ws_simps)
next
  case (4 b)
  obtain m where n: "n = Suc m" using "4.prems"(2) by (cases n) auto
  show ?case
  proof (cases b)
    case True
    show ?thesis unfolding n
      using parse_value_leaf[of "''true'' @ rest" "CHR ''t''" "''rue'' @ rest" w m] "4.prems"(4) True
      by (simp add: is_ws_simps)
  next
    case False
    show ?thesis unfolding n
      using parse_value_leaf[of "''false'' @ rest" "CHR ''f''" "''alse'' @ rest" w m] "4.prems"(4) False
      by (simp add: is_ws_simps)
  qed
next
  case (5 s)
  obtain m where n: "n = Suc m" using "5.prems"(2) by (cases n) auto
  show ?case unfolding n
    using parse_value_leaf[of "json_string s @ rest" "CHR 0x22"
        "concat (map escape_char s) @ CHR 0x22 # rest" w m] "5.prems"(4)
    by (simp add: is_ws_simps json_string_def parse_string_json_string)
next
  case (6 i)
  obtain m where n: "n = Suc m" using "6.prems"(2) by (cases n) auto
  obtain c cs where h: "str_int i = c # cs" "c = CHR ''-'' \<or> is_digit c"
    using str_int_head by blast
  have nws: "\<not> is_ws c" using h(2) is_digit_not_ws[of c] by (auto simp: is_ws_simps)
  have sp: "c \<noteq> CHR 0x22" "c \<noteq> CHR ''[''" "c \<noteq> CHR ''{''" "c \<noteq> CHR ''t''" "c \<noteq> CHR ''f''"
    "c \<noteq> CHR ''n''"
    using h(2) is_digit_not_special[of c] by auto
  have pn: "parse_number (c # cs @ rest) = Some (JInt i, rest)"
    using parse_number_str_int[OF "6.prems"(3), of i] h(1) by simp
  show ?case unfolding n
    using parse_value_leaf[of "str_int i @ rest" c "cs @ rest" w m] "6.prems"(4) h(1) nws sp pn
    by simp
next
  case (7 x)
  then show ?case by simp
next
  case 8
  then show ?case by simp
next
  case (9 v vs)
  obtain m where n: "n = Suc m" and m: "sz v \<le> m" "szs vs \<le> m"
    using "9.prems"(3) by (cases n) auto
  have ff: "float_free v" "float_free_items vs" using "9.prems"(1) by simp_all
  show ?case
  proof (cases "vs = []")
    case True
    have pv: "parse_value m (w @ json_encode fr ind lvl v @ post @ CHR '']'' # rest)
              = Some (v, post @ CHR '']'' # rest)"
      by (rule "9.IH"(1)[OF ff(1) m(1) follow_ok_post(1)[OF "9.prems"(6)] "9.prems"(4)])
    show ?thesis unfolding n using True parse_elements_step_ws[OF pv "9.prems"(6)] by simp
  next
    case False
    have ne: "json_encode_items fr ind lvl vs \<noteq> []" using False by (simp add: encode_items_Nil)
    define tail where "tail = mid @ py_join (CHR '','' # mid) (json_encode_items fr ind lvl vs)
                              @ post @ CHR '']'' # rest"
    have teq: "w @ py_join (CHR '','' # mid) (json_encode_items fr ind lvl (v # vs)) @ post @ CHR '']'' # rest
               = w @ json_encode fr ind lvl v @ CHR '','' # tail"
      unfolding tail_def using py_join_Cons2[OF ne] by simp
    have pv: "parse_value m (w @ json_encode fr ind lvl v @ CHR '','' # tail) = Some (v, CHR '','' # tail)"
      by (rule "9.IH"(1)[OF ff(1) m(1) follow_ok_simps(2) "9.prems"(4)])
    have pe: "parse_elements m tail = Some (vs, rest)"
      unfolding tail_def
      by (rule "9.IH"(2)[OF ff(2) False m(2) "9.prems"(5) "9.prems"(5) "9.prems"(6)])
    show ?thesis unfolding n teq
      using parse_elements_step[OF pv] pe by (simp add: is_ws_simps)
  qed
next
  case 10
  then show ?case by simp
next
  case (11 k v kvs)
  obtain m where n: "n = Suc m" and m: "sz v \<le> m" "szm kvs \<le> m"
    using "11.prems"(3) by (cases n) auto
  have ff: "float_free v" "float_free_members kvs" using "11.prems"(1) by simp_all
  have sp: "\<forall>c\<in>set '' ''. is_ws c" by (simp add: is_ws_simps)
  show ?case
  proof (cases "kvs = []")
    case True
    have pv: "parse_value m ('' '' @ json_encode fr ind lvl v @ post @ CHR ''}'' # rest)
              = Some (v, post @ CHR ''}'' # rest)"
      by (rule "11.IH"(1)[OF ff(1) m(1) follow_ok_post(2)[OF "11.prems"(6)] sp])
    have "parse_members (Suc m) (w @ json_string k @ '': '' @ json_encode fr ind lvl v @ post @ CHR ''}'' # rest)
          = Some ([(k, v)], rest)"
      using parse_members_step[OF "11.prems"(4), of m "json_encode fr ind lvl v @ post @ CHR ''}'' # rest"
          v "post @ CHR ''}'' # rest" k] pv "11.prems"(6)
      by (simp add: skip_ws_append skip_ws_Cons is_ws_simps)
    then show ?thesis unfolding n using True by simp
  next
    case False
    have ne: "json_encode_members fr ind lvl kvs \<noteq> []" using False by (simp add: encode_members_Nil)
    define tail where "tail = mid @ py_join (CHR '','' # mid) (json_encode_members fr ind lvl kvs)
                              @ post @ CHR ''}'' # rest"
    have teq: "w @ py_join (CHR '','' # mid) (json_encode_members fr ind lvl ((k, v) # kvs))
                 @ post @ CHR ''}'' # rest
               = w @ json_string k @ '': '' @ json_encode fr ind lvl v @ CHR '','' # tail"
      unfolding tail_def using py_join_Cons2[OF ne] by simp
    have pv: "parse_value m ('' '' @ json_encode fr ind lvl v @ CHR '','' # tail)
              = Some (v, CHR '','' # tail)"
      by (rule "11.IH"(1)[OF ff(1) m(1) follow_ok_simps(2) sp])
    have pm: "parse_members m tail = Some (kvs, rest)"
      unfolding tail_def
      by (rule "11.IH"(2)[OF ff(2) False m(2) "11.prems"(5) "11.prems"(5) "11.prems"(6)])
    have "parse_members (Suc m) (w @ json_string k @ '': '' @ json_encode fr ind lvl v @ CHR '','' # tail)
          = Some ((k, v) # kvs, rest)"
      using parse_members_step[OF "11.prems"(4), of m "json_encode fr ind lvl v @ CHR '','' # tail"
          v "CHR '','' # tail" k] pv pm
      by (simp add: skip_ws_Cons is_ws_simps)
    then show ?thesis unfolding n teq .
  qed
qed

lemma py_join_length:
  "sep \<noteq> [] \<Longrightarrow> sum_list (map length xs) + length xs \<le> length (py_join sep xs) + 1"
proof (induction sep xs rule: py_join.induct)
  case (1 sep) then show ?case by simp
next
  case (2 sep x) then show ?case by simp
next
  case (3 sep x y ys)
  have "1 \<le> length sep" using "3.prems" by (cases sep) simp_all
  then show ?case using 3 by simp
qed

lemma layout_length:
  assumes "items \<noteq> []"
  shows "sum_list (map length items) + length items + 1 \<le> length (json_layout ind lvl [op] [cl] items)"
proof -
  from layout_form[OF assms, of ind lvl op cl] obtain pre mid post where
    lay: "json_layout ind lvl [op] [cl] items = op # pre @ py_join (CHR '','' # mid) items @ post @ [cl]"
    by blast
  have "sum_list (map length items) + length items \<le> length (py_join (CHR '','' # mid) items) + 1"
    by (rule py_join_length) simp
  then show ?thesis unfolding lay by simp
qed

lemma str_int_nonempty: "1 \<le> length (str_int i)"
  using str_int_head[of i] by auto

lemma encode_items_length: "length (json_encode_items fr ind lvl vs) = length vs"
  by (induction vs) simp_all

lemma encode_members_length: "length (json_encode_members fr ind lvl kvs) = length kvs"
  by (induction kvs) auto

lemma sz_le_length:
  "float_free v \<Longrightarrow> sz v \<le> length (json_encode fr ind lvl v)"
  "float_free_items vs \<Longrightarrow>
     szs vs \<le> sum_list (map length (json_encode_items fr ind lvl vs)) + length vs"
  "float_free_members kvs \<Longrightarrow>
     szm kvs \<le> sum_list (map length (json_encode_members fr ind lvl kvs)) + length kvs"
proof (induction v and vs and kvs arbitrary: lvl and lvl and lvl rule: sz_szs_szm.induct)
  case (1 vs)
  show ?case
  proof (cases "vs = []")
    case True then show ?thesis by (simp add: json_layout_def)
  next
    case False
    have ne: "json_encode_items fr ind (Suc lvl) vs \<noteq> []" using False by (simp add: encode_items_Nil)
    have "szs vs \<le> sum_list (map length (json_encode_items fr ind (Suc lvl) vs)) + length vs"
      using "1.IH"[of "Suc lvl"] "1.prems" by simp
    then show ?thesis
      using layout_length[OF ne, of ind lvl "CHR ''[''" "CHR '']''"]
      by (simp add: encode_items_length)
  qed
next
  case (2 kvs)
  show ?case
  proof (cases "kvs = []")
    case True then show ?thesis by (simp add: json_layout_def)
  next
    case False
    have ne: "json_encode_members fr ind (Suc lvl) kvs \<noteq> []"
      using False by (simp add: encode_members_Nil)
    have "szm kvs \<le> sum_list (map length (json_encode_members fr ind (Suc lvl) kvs)) + length kvs"
      using "2.IH"[of "Suc lvl"] "2.prems" by simp
    then show ?thesis
      using layout_length[OF ne, of ind lvl "CHR ''{''" "CHR ''}''"]
      by (simp add: encode_members_length)
  qed
next
  case (6 i) show ?case using str_int_nonempty[of i] by simp
next
  case (9 v vs)
  have "sz v \<le> length (json_encode fr ind lvl v)" using 9 by simp
  moreover have "szs vs \<le> sum_list (map length (json_encode_items fr ind lvl vs)) + length vs"
    using 9 by simp
  ultimately show ?case by simp
next
  case (11 k v kvs)
  have "sz v \<le> length (json_encode fr ind lvl v)" using 11 by simp
  moreover have "szm kvs \<le> sum_list (map length (json_encode_members fr ind lvl kvs)) + length kvs"
    using 11 by simp
  ultimately show ?case by simp
qed (simp_all add: json_string_def)

lemma json_loads_encode:
  assumes "float_free v"
  shows "json_loads (json_encode fr ind 0 v) = Some v"
proof -
  have "parse_value (Suc (length (json_encode fr ind 0 v))) ([] @ json_encode fr ind 0 v @ [])
        = Some (v, [])"
    by (rule roundtrip(1)[OF assms _ follow_ok_simps(1)])
       (use sz_le_length(1)[OF assms, of fr ind 0] in simp_all)
  then show ?thesis by (simp add: json_loads_def skip_ws_def)
qed

lemma json_loads_dumps: "float_free v \<Longrightarrow> json_loads (json_dumps fr v) = Some v"
  unfolding json_dumps_def by (rule json_loads_encode)

lemma json_loads_dumps_indent:
  "float_free v \<Longrightarrow> json_loads (json_dumps_indent fr k v) = Some v"
  unfolding json_dumps_indent_def by (rule json_loads_encode)

subsection \<open>Trace files\<close>

lemma random_choices_hex:
  "random_choices ''0123456789abcdef'' k r = (x, r') \<Longrightarrow> is_hex_id k (Some x)"
proof -
  assume a: "random_choices ''0123456789abcdef'' k r = (x, r')"
  define H where "H = set ''0123456789abcdef''"
  have m: "''0123456789abcdef'' ! (n mod 16) \<in> H" for n
    unfolding H_def by (rule nth_mem) simp
  have x: "x = map (\<lambda>n. ''0123456789abcdef'' ! (n mod 16)) (stake k r)"
    using a by (simp add: random_choices_def)
  have "length x = k" unfolding x by simp
  moreover have "list_all (\<lambda>c. c \<in> H) x"
    unfolding x list_all_iff using m by auto
  ultimately show ?thesis unfolding is_hex_id_def H_def by simp
qed

lemma generate_span_is_span:
  assumes "is_hex_id 32 (Some t)"
  shows "is_span (fst (generate_span t p n s r))"
proof -
  obtain sid r1 where sid: "generate_span_id r = (sid, r1)" by (cases "generate_span_id r")
  have hs: "is_hex_id 16 (Some sid)"
    using sid unfolding generate_span_id_def by (rule random_choices_hex)
  obtain d r2 where d: "random_randint 1000000 100000000 r1 = (d, r2)"
    by (cases "random_randint 1000000 100000000 r1")
  obtain k r3 where k: "random_randint 1 5 r2 = (k, r3)" by (cases "random_randint 1 5 r2")
  have kr: "1 \<le> k" "k \<le> 5" using k unfolding random_randint_def by auto
  obtain op r4 where op: "random_choice [''find'', ''insert'', ''update'', ''delete''] r3 = (op, r4)"
    by (cases "random_choice [''find'', ''insert'', ''update'', ''delete''] r3")
  show ?thesis
    unfolding generate_span_def
    using assms hs kr
    by (simp add: sid d k op Let_def is_span_def str_member_def int_member_def)
qed

lemma float_free_items_snoc:
  "float_free_items xs \<Longrightarrow> float_free x \<Longrightarrow> float_free_items (xs @ [x])"
  by (induction xs) auto

lemma trace_spans_loop_spans:
  assumes "is_hex_id 32 (Some t)"
  shows "list_all is_span spans \<Longrightarrow> list_all is_span (fst (trace_spans_loop t b is spans p r))"
proof (induction "is" arbitrary: spans p r)
  case Nil then show ?case by simp
next
  case (Cons i "is")
  obtain span r1 where g: "generate_span t p i (b + i * 1000000) r = (span, r1)"
    by (cases "generate_span t p i (b + i * 1000000) r")
  have sp: "is_span span" using generate_span_is_span[OF assms, of p i "b + i * 1000000" r] g by simp
  have nxt: "list_all is_span (spans @ [span])" using Cons.prems sp by simp
  show ?case using g Cons.IH[OF nxt]
    by (simp add: Let_def split: prod.splits)
qed

lemma generate_trace_data_props:
  assumes "generate_trace_data n w = (v, w')"
  shows "float_free v" and "trace_object (nat n) v"
    and "dirs w' = dirs w" and "files w' = files w"
proof -
  obtain tid r1 where t: "generate_trace_id (rand w) = (tid, r1)"
    by (cases "generate_trace_id (rand w)")
  have ht: "is_hex_id 32 (Some tid)"
    using t unfolding generate_trace_id_def by (rule random_choices_hex)
  define b where "b = int_of_float (shd (clock w) * 10 ^ 9)"
  obtain ss r2 where l: "trace_spans_loop tid b (py_range n) [] [] r1 = (ss, r2)"
    by (cases "trace_spans_loop tid b (py_range n) [] [] r1")
  have ff: "float_free_items ss"
    using trace_spans_loop_float_free[of "[]" tid b "py_range n" "[]" r1] l by simp
  have sp: "list_all is_span ss"
    using trace_spans_loop_spans[OF ht, of "[]" b "py_range n" "[]" r1] l by simp
  have len: "length ss = nat n"
    using trace_spans_loop_length[of tid b "py_range n" "[]" "[]" r1] l
    by (simp add: py_range_def)
  have v: "v = JObj
           [(''resourceSpans'', JArr
              [JObj
                [(''resource'', JObj
                   [(''attributes'', JArr
                      [JObj [(''key'', JStr ''service.name''),
                             (''value'', JObj [(''stringValue'', JStr ''test-service'')])],
                       JObj [(''key'', JStr ''service.version''),
                             (''value'', JObj [(''stringValue'', JStr ''1.0.0'')])],
                       JObj [(''key'', JStr ''host.name''),
                             (''value'', JObj [(''stringValue'', JStr ''test-host'')])]])]),
                 (''scopeSpans'', JArr
                   [JObj
                     [(''scope'', JObj [(''name'', JStr ''test-tracer'')]),
                      (''spans'', JArr ss)]])]])]"
    and w': "w' = w\<lparr>rand := r2, clock := stl (clock w)\<rparr>"
    using assms t l unfolding generate_trace_data_def b_def by (simp_all add: Let_def)
  show "float_free v" unfolding v using ff by simp
  show "trace_object (nat n) v"
    unfolding v trace_object_def trace_spans_def using len sp by simp
  show "dirs w' = dirs w" "files w' = files w" unfolding w' by simp_all
qed

lemma trace_lines_loop_props:
  "trace_lines_loop fr spo n lines a w = (lines', a', w') \<Longrightarrow>
   (\<exists>vs. lines' = lines @ map (json_dumps fr) vs \<and> length vs = n \<and>
      list_all (\<lambda>v. float_free v \<and> trace_object (nat spo) v) vs)
   \<and> a' = a + int n * spo \<and> dirs w' = dirs w \<and> files w' = files w"
proof (induction n arbitrary: lines a w)
  case 0
  then show ?case by simp
next
  case (Suc n)
  obtain v w1 where g: "generate_trace_data spo w = (v, w1)"
    by (cases "generate_trace_data spo w")
  note p = generate_trace_data_props[OF g]
  have step: "trace_lines_loop fr spo n (lines @ [json_dumps fr v]) (a + spo) w1 = (lines', a', w')"
    using Suc.prems by (simp add: g)
  from Suc.IH[OF step] obtain vs where
    vs: "lines' = (lines @ [json_dumps fr v]) @ map (json_dumps fr) vs" "length vs = n"
        "list_all (\<lambda>v. float_free v \<and> trace_object (nat spo) v) vs"
    and rest: "a' = a + spo + int n * spo" "dirs w' = dirs w1" "files w' = files w1"
    by blast
  have "\<exists>vs. lines' = lines @ map (json_dumps fr) vs \<and> length vs = Suc n \<and>
      list_all (\<lambda>v. float_free v \<and> trace_object (nat spo) v) vs"
    by (rule exI[of _ "v # vs"]) (use vs p in simp)
  moreover have "a' = a + int (Suc n) * spo" using rest(1) by (simp add: algebra_simps)
  ultimately show ?case using rest(2,3) p(3,4) by simp
qed

lemma trace_object_span_count: "trace_object n v \<Longrightarrow> span_count v = n"
  unfolding trace_object_def span_count_def
  by (auto split: option.splits json.splits simp: list_all_iff)

lemma trace_lines_read_back:
  assumes "list_all (\<lambda>v. float_free v \<and> trace_object k v) vs"
  shows "list_all (trace_line k) (map (json_dumps fr) vs)"
    and "sum_list (map (\<lambda>l. case json_loads l of None \<Rightarrow> 0 | Some v \<Rightarrow> span_count v)
                    (map (json_dumps fr) vs)) = length vs * k"
    and "\<forall>l\<in>set (map (json_dumps fr) vs). newline \<notin> set l"
  using assms
  by (induction vs)
     (simp_all add: trace_line_def json_loads_dumps trace_object_span_count json_dumps_no_newline)

lemma trace_file_written:
  assumes "path_parent (os_path_join output_dir (trace_filename file_num)) \<in> dirs w"
  shows "\<exists>w' body.
           generate_trace_file fr file_num spans_per_file output_dir w
             = Inr (275 * max 1 (spans_per_file div 275), w')
         \<and> files w' = (files w)(os_path_join output_dir (trace_filename file_num) \<mapsto> body)
         \<and> dirs w' = dirs w
         \<and> length (file_lines body) = nat (max 1 (spans_per_file div 275))
         \<and> list_all (trace_line 275) (file_lines body)
         \<and> file_span_count body = nat (max 1 (spans_per_file div 275)) * 275"
proof -
  define n where "n = nat (max 1 (spans_per_file div 275))"
  define path where "path = os_path_join output_dir (trace_filename file_num)"
  obtain lines a w1 where l: "trace_lines_loop fr 275 n [] 0 w = (lines, a, w1)"
    by (cases "trace_lines_loop fr 275 n [] 0 w") auto
  from trace_lines_loop_props[OF l] obtain vs where
    vs: "lines = map (json_dumps fr) vs" "length vs = n"
        "list_all (\<lambda>v. float_free v \<and> trace_object (nat 275) v) vs"
    and a: "a = int n * 275" and d: "dirs w1 = dirs w" and f: "files w1 = files w"
    by auto
  have vs3: "list_all (\<lambda>v. float_free v \<and> trace_object 275 v) vs" using vs(3) by simp
  note rb = trace_lines_read_back[OF vs3, of fr, folded vs(1)]
  have n_pos: "0 < n" unfolding n_def by simp
  have n_int: "int n = max 1 (spans_per_file div 275)" unfolding n_def by simp
  have ne: "lines \<noteq> []" using vs(1,2) n_pos by auto
  define body where "body = py_join [newline] lines @ [newline]"
  have fl: "file_lines body = lines"
    unfolding body_def by (rule file_lines_join_nl[OF rb(3) ne])
  have wr: "write_file path body w1 = Inr (w1\<lparr>files := (files w1)(path \<mapsto> body)\<rparr>)"
    by (rule write_file_ok) (use assms d in \<open>simp add: path_def\<close>)
  have res: "generate_trace_file fr file_num spans_per_file output_dir w
         = Inr (a, w1\<lparr>files := (files w1)(path \<mapsto> body)\<rparr>)"
    unfolding generate_trace_file_def Let_def
    using l wr by (simp add: n_def path_def body_def)
  have cnt: "file_span_count body = n * 275"
    unfolding file_span_count_def fl using rb(2) vs(2) by simp
  have len: "length (file_lines body) = n" unfolding fl vs(1) using vs(2) by simp
  have ok: "list_all (trace_line 275) (file_lines body)" unfolding fl by (rule rb(1))
  show ?thesis
    apply (rule exI[of _ "w1\<lparr>files := (files w1)(path \<mapsto> body)\<rparr>"])
    apply (rule exI[of _ body])
    using res a n_int cnt len ok d f
    by (simp add: path_def n_def)
qed

lemma trace_path0: "os_path_join ''.'' (trace_filename 0) = ''./traces_0000.jsonl''"
  by code_simp

lemma trace_dir0: "path_parent (os_path_join ''.'' (trace_filename 0)) \<in> dirs world0"
  unfolding trace_path0
  by (simp add: path_parent_def os_path_dirname_def world0_def)

section \<open>The claims\<close>

text \<open>
  C3. For \<open>tests_per_file \<ge> 0\<close> and any failure rate, \<open>generate_suite_file\<close>, called
  with a directory that exists, writes a file in which the number of lines beginning with
  \<open>--- PASS:\<close> or \<open>--- FAIL:\<close> is \<open>tests_per_file\<close>, and whose summary line (the last
  but one) is \<open>FAIL\<close> if some test line reports \<open>FAIL\<close> and \<open>PASS\<close> otherwise.
\<close>

theorem suite_file_counts:
  assumes nonneg: "0 \<le> tests_per_file"
      and dir: "path_parent (os_path_join output_dir (suite_filename file_num)) \<in> dirs w"
  shows "\<exists>w' nf text.
           generate_suite_file file_num tests_per_file failure_rate output_dir w
             = Inr ((tests_per_file, nf), w')
         \<and> files w' (os_path_join output_dir (suite_filename file_num)) = Some text
         \<and> int (length (filter result_line (file_lines text))) = tests_per_file
         \<and> summary_line (file_lines text)
             = Some (if \<exists>l\<in>set (file_lines text). prefix ''--- FAIL:'' l
                     then ''FAIL'' else ''PASS'')"
proof -
  define m where "m = ''module_'' @ format_0d 4 file_num"
  define path where "path = os_path_join output_dir (suite_filename file_num)"
  have mc: "\<forall>c\<in>set m. name_char c" unfolding m_def by (rule module_name_chars)
  obtain lines nf np r1 where
    l: "suite_loop m failure_rate (py_range tests_per_file) [] 0 0 (rand w) = (lines, nf, np, r1)"
    by (cases "suite_loop m failure_rate (py_range tests_per_file) [] 0 0 (rand w)") auto
  from suite_loop_blocks[OF mc l] obtain bs where
    bs: "lines = map (py_join [newline] \<circ> snd) bs" "length bs = length (py_range tests_per_file)"
        "\<forall>b\<in>set bs. test_block (fst b) (snd b)"
        "nf = int (length (filter (\<lambda>b. fst b = ''FAIL'') bs))"
    by auto
  obtain t r2 where t: "random_uniform 0.5 5.0 r1 = (t, r2)"
    by (cases "random_uniform 0.5 5.0 r1")
  define summary where "summary = (if 0 < nf then ''FAIL'' else ''PASS'')"
  define okl where "okl = ''ok  '' @ [CHR 0x09] @ ''github.com/test/'' @ m @ [CHR 0x09] @ format_3f t @ ''s''"
  define ls where "ls = concat (map snd bs) @ [summary, okl]"
  define body where "body = py_join [newline] (lines @ [summary, okl])"
  have body_eq: "body = py_join [newline] ls"
    unfolding body_def ls_def bs(1)
    using py_join_blocks[OF blocks_lines_plain(2)[OF bs(3)], of "[summary, okl]" "[newline]"]
    by simp
  have okl_plain: "newline \<notin> set okl" "okl \<noteq> []" "\<not> result_line okl"
       "\<not> prefix ''--- FAIL:'' okl"
    unfolding okl_def
    using name_chars_no_newline[OF mc] name_chars_no_newline[OF format_3f_name_chars[of t]]
    by (simp_all add: result_line_def)
  have sum_plain: "newline \<notin> set summary" "\<not> result_line summary"
       "\<not> prefix ''--- FAIL:'' summary"
    unfolding summary_def by (simp_all add: result_line_def)
  have fl: "file_lines body = ls"
    unfolding body_eq
    by (rule file_lines_join)
       (use blocks_lines_plain(1)[OF bs(3)] okl_plain sum_plain in \<open>simp_all add: ls_def\<close>)
  have cnt: "length (filter result_line ls) = length bs"
    unfolding ls_def using blocks_result_lines[OF bs(3)] okl_plain sum_plain by simp
  have len: "int (length bs) = tests_per_file"
    using bs(2) nonneg by (simp add: py_range_def)
  have fail_iff: "(\<exists>l\<in>set ls. prefix ''--- FAIL:'' l) \<longleftrightarrow> 0 < nf"
    unfolding ls_def using blocks_fail_lines[OF bs(3)] okl_plain sum_plain bs(4) by simp
  have sl: "summary_line ls = Some summary"
    unfolding summary_line_def ls_def by (simp add: nth_append)
  have wr: "write_file path body (w\<lparr>rand := r2\<rparr>)
             = Inr (w\<lparr>rand := r2, files := (files w)(path \<mapsto> body)\<rparr>)"
    using dir by (simp add: write_file_def path_def)
  have pth: "os_path_join output_dir (m @ ''.suite'') = path"
    unfolding path_def m_def suite_filename_def by simp
  have res: "generate_suite_file file_num tests_per_file failure_rate output_dir w
         = Inr ((tests_per_file, nf), w\<lparr>rand := r2, files := (files w)(path \<mapsto> body)\<rparr>)"
    unfolding generate_suite_file_def Let_def m_def[symmetric]
    using l t wr by (simp add: pth body_def summary_def okl_def)
  show ?thesis
    apply (rule exI[of _ "w\<lparr>rand := r2, files := (files w)(path \<mapsto> body)\<rparr>"])
    apply (rule exI[of _ nf])
    apply (rule exI[of _ body])
    using res fl cnt len sl fail_iff
    by (simp add: path_def summary_def)
qed

theorem suite_file_counts_witness:
  "(0::int) \<le> 2 \<and> path_parent (os_path_join ''.'' (suite_filename 0)) \<in> dirs world0
   \<and> (\<exists>w' nf text.
           generate_suite_file 0 2 0.1 ''.'' world0 = Inr ((2, nf), w')
         \<and> files w' (os_path_join ''.'' (suite_filename 0)) = Some text
         \<and> length (filter result_line (file_lines text)) = 2
         \<and> summary_line (file_lines text)
             = Some (if \<exists>l\<in>set (file_lines text). prefix ''--- FAIL:'' l
                     then ''FAIL'' else ''PASS''))"
proof -
  have "suite_filename 0 = ''module_0000.suite''"
    by code_simp
  then have h: "path_parent (os_path_join ''.'' (suite_filename 0)) \<in> dirs world0"
    by (simp add: path_parent_def os_path_join_def os_path_dirname_def world0_def)
  have n: "(0::int) \<le> 2" by simp
  show ?thesis
    using h suite_file_counts[OF n h, of "0.1"] by simp
qed




text \<open>
  C10. \<open>generate_trace_file\<close>, called with a directory that exists, writes
  \<open>max(1, spans_per_file // 275)\<close> lines, each of which reads back as a trace object with 275
  span objects, and returns \<open>275 * max(1, spans_per_file // 275)\<close>, which is the number of
  span objects read back from the file: at least 275, and more than the request whenever
  \<open>spans_per_file < 275\<close>.
\<close>

theorem trace_file_line_count:
  assumes "path_parent (os_path_join output_dir (trace_filename file_num)) \<in> dirs w"
  shows "\<exists>body.
           returned (generate_trace_file fr file_num spans_per_file output_dir w)
             = Some (275 * max 1 (spans_per_file div 275))
         \<and> written (generate_trace_file fr file_num spans_per_file output_dir w)
             (os_path_join output_dir (trace_filename file_num)) = Some body
         \<and> int (length (file_lines body)) = max 1 (spans_per_file div 275)
         \<and> list_all (trace_line 275) (file_lines body)
         \<and> int (file_span_count body) = 275 * max 1 (spans_per_file div 275)
         \<and> 275 \<le> file_span_count body
         \<and> (spans_per_file < 275 \<longrightarrow> spans_per_file < int (file_span_count body))"
proof -
  from trace_file_written[OF assms, of fr spans_per_file] obtain w' body where
    r: "generate_trace_file fr file_num spans_per_file output_dir w
             = Inr (275 * max 1 (spans_per_file div 275), w')"
    and f: "files w' = (files w)(os_path_join output_dir (trace_filename file_num) \<mapsto> body)"
    and p: "length (file_lines body) = nat (max 1 (spans_per_file div 275))"
       "list_all (trace_line 275) (file_lines body)"
       "file_span_count body = nat (max 1 (spans_per_file div 275)) * 275"
    by blast
  define k where "k = max 1 (spans_per_file div 275)"
  have k1: "1 \<le> k" unfolding k_def by simp
  have c1: "int (length (file_lines body)) = k"
    using p(1) k1 unfolding k_def[symmetric] by simp
  have c2: "int (file_span_count body) = 275 * k"
    using p(3) k1 unfolding k_def[symmetric] by simp
  have c3: "275 \<le> file_span_count body" using c2 k1 by linarith
  have c4: "spans_per_file < 275 \<longrightarrow> spans_per_file < int (file_span_count body)"
    using c2 k1 by linarith
  have r1: "returned (generate_trace_file fr file_num spans_per_file output_dir w)
            = Some (275 * k)"
    using r by (simp add: returned_def k_def)
  have r2: "written (generate_trace_file fr file_num spans_per_file output_dir w)
             (os_path_join output_dir (trace_filename file_num)) = Some body"
    using r f by (simp add: written_def)
  show ?thesis using r1 r2 c1 p(2) c2 c3 c4 unfolding k_def by blast
qed

theorem trace_file_line_count_witness:
  "path_parent (os_path_join ''.'' (trace_filename 0)) \<in> dirs world0
   \<and> (\<exists>body.
           returned (generate_trace_file (\<lambda>x. ''0.0'') 0 100 ''.'' world0) = Some 275
         \<and> written (generate_trace_file (\<lambda>x. ''0.0'') 0 100 ''.'' world0)
              ''./traces_0000.jsonl'' = Some body
         \<and> length (file_lines body) = 1
         \<and> list_all (trace_line 275) (file_lines body)
         \<and> file_span_count body = 275)"
  using trace_dir0 trace_file_line_count[OF trace_dir0, of "\<lambda>x. ''0.0''" 100]
  unfolding trace_path0 by simp blast

text \<open>
  C1. Every line of a file written by \<open>generate_trace_file\<close> reads back by \<open>json.loads\<close> as
  a JSON value, and in every such value \<open>resourceSpans[0].scopeSpans[0].spans\<close> is a list of
  275 span objects, whatever \<open>spans_per_file\<close> is.
\<close>

theorem trace_file_lines_json:
  assumes "path_parent (os_path_join output_dir (trace_filename file_num)) \<in> dirs w"
  shows "\<exists>body.
           written (generate_trace_file fr file_num spans_per_file output_dir w)
             (os_path_join output_dir (trace_filename file_num)) = Some body
         \<and> file_lines body \<noteq> []
         \<and> list_all (\<lambda>l. \<exists>v ss. json_loads l = Some v \<and> trace_spans v = Some (JArr ss)
                              \<and> length ss = 275 \<and> list_all is_span ss)
             (file_lines body)"
proof -
  from trace_file_written[OF assms, of fr spans_per_file] obtain w' body where
    r: "generate_trace_file fr file_num spans_per_file output_dir w
             = Inr (275 * max 1 (spans_per_file div 275), w')"
    and f: "files w' = (files w)(os_path_join output_dir (trace_filename file_num) \<mapsto> body)"
    and p: "length (file_lines body) = nat (max 1 (spans_per_file div 275))"
       "list_all (trace_line 275) (file_lines body)"
    by blast
  have ne: "file_lines body \<noteq> []" using p(1) by auto
  have tl: "trace_line 275 l \<Longrightarrow>
            \<exists>v ss. json_loads l = Some v \<and> trace_spans v = Some (JArr ss)
                   \<and> length ss = 275 \<and> list_all is_span ss" for l
    unfolding trace_line_def trace_object_def
    by (auto split: option.splits json.splits)
  have "list_all (\<lambda>l. \<exists>v ss. json_loads l = Some v \<and> trace_spans v = Some (JArr ss)
                              \<and> length ss = 275 \<and> list_all is_span ss) (file_lines body)"
    using p(2) tl unfolding list_all_iff by blast
  then show ?thesis
    apply -
    apply (rule exI[of _ body])
    using r f ne by (simp add: written_def)
qed

theorem trace_file_lines_json_witness:
  "path_parent (os_path_join ''.'' (trace_filename 0)) \<in> dirs world0
   \<and> (\<exists>body.
           written (generate_trace_file (\<lambda>x. ''0.0'') 0 100 ''.'' world0)
              ''./traces_0000.jsonl'' = Some body
         \<and> file_lines body \<noteq> []
         \<and> list_all (\<lambda>l. \<exists>v ss. json_loads l = Some v \<and> trace_spans v = Some (JArr ss)
                              \<and> length ss = 275 \<and> list_all is_span ss)
             (file_lines body))"
  using trace_dir0 trace_file_lines_json[OF trace_dir0, of "\<lambda>x. ''0.0''" 100]
  unfolding trace_path0 by simp

end
